theory Spec2Isabelle
  imports Complex_Main "HOL-Library.AList"
begin

section \<open>Configuration tables (config.py)\<close>

text \<open>
  Python dictionaries whose iteration order matters, or which are only read, are
  association lists in insertion order; a read \<open>d[k]\<close> is \<open>map_of d k\<close>, with \<open>None\<close>
  standing for the \<open>KeyError\<close>, and \<open>d.get(k, default)\<close> is \<open>dict_get d k default\<close>.
\<close>

definition dict_get :: "('k \<times> 'v) list \<Rightarrow> 'k \<Rightarrow> 'v \<Rightarrow> 'v" where
  "dict_get d k dflt = (case map_of d k of None \<Rightarrow> dflt | Some v \<Rightarrow> v)"

definition AGENT_IDS :: "(string \<times> string) list" where
  "AGENT_IDS =
     [(''Agent 1'', ''692479b918668dee67209282''),
      (''Agent 2'', ''692a056cfad7d194cd3f0992''),
      (''Agent 3'', ''69438f79c1af7ec03ff7fed0'')]"

definition TYPE_TO_PRIMARY_AGENT :: "(string \<times> string) list" where
  "TYPE_TO_PRIMARY_AGENT =
     [(''software'', ''Agent 1''),
      (''hardware'', ''Agent 2''),
      (''network'', ''Agent 3'')]"

definition SECONDARY_ASSIGNMENTS :: "((string \<times> string) \<times> string list) list" where
  "SECONDARY_ASSIGNMENTS =
     [((''medium'', ''network''), [''Agent 3'', ''Agent 1'']),
      ((''medium'', ''software''), [''Agent 1'', ''Agent 2'']),
      ((''medium'', ''hardware''), [''Agent 2'', ''Agent 3'']),
      ((''low'', ''hardware''), [''Agent 2'', ''Agent 1'']),
      ((''low'', ''network''), [''Agent 3'', ''Agent 2'']),
      ((''low'', ''software''), [''Agent 1'', ''Agent 3''])]"

definition MAX_TICKETS_PER_AGENT :: nat where
  "MAX_TICKETS_PER_AGENT = 5"

definition PRIORITY_LEVELS :: "string list" where
  "PRIORITY_LEVELS = [''high'', ''medium'', ''low'']"

definition TICKET_TYPES :: "string list" where
  "TICKET_TYPES = [''software'', ''hardware'', ''network'']"

definition PRIORITY_ENCODING :: "(string \<times> nat) list" where
  "PRIORITY_ENCODING = [(''low'', 0), (''medium'', 1), (''high'', 2)]"

definition TYPE_ENCODING :: "(string \<times> nat) list" where
  "TYPE_ENCODING = [(''software'', 0), (''hardware'', 1), (''network'', 2)]"

text \<open>The three entries of \<open>TICKET_STATUS\<close>, read by their literal keys.\<close>

definition STATUS_OPEN :: string where
  "STATUS_OPEN = ''open''"

definition STATUS_PENDING :: string where
  "STATUS_PENDING = ''pending''"

definition STATUS_CLOSED :: string where
  "STATUS_CLOSED = ''closed''"


section \<open>Strings\<close>

text \<open>
  \<open>str.lower()\<close> on the ASCII range: the letters \<open>A\<close> to \<open>Z\<close> move to \<open>a\<close> to \<open>z\<close>,
  every other byte is kept. Strings are byte lists here, and priorities and types are
  taken to be ASCII: Python also lowers letters outside that range (the Kelvin sign
  U+212A becomes \<open>k\<close>), which this function leaves as they are.
\<close>

definition lower_char :: "char \<Rightarrow> char" where
  "lower_char c =
     (let n = (of_char c :: nat) in if 65 \<le> n \<and> n \<le> 90 then char_of (n + 32) else c)"

definition lower :: "string \<Rightarrow> string" where
  "lower s = map lower_char s"

text \<open>Truth value of an \<open>Optional[str]\<close>: \<open>None\<close> and the empty string are false.\<close>

fun truthy :: "string option \<Rightarrow> bool" where
  "truthy None = False"
| "truthy (Some a) = (a \<noteq> [])"

text \<open>The value that passes a test \<open>if agent:\<close>, if there is one.\<close>

fun if_truthy :: "string option \<Rightarrow> string option" where
  "if_truthy None = None"
| "if_truthy (Some a) = (if a = [] then None else Some a)"


section \<open>Data model (classifier.py)\<close>

text \<open>
  The dataclass \<open>Ticket\<close>. The field \<open>id\<close> is \<open>id_ticket\<close> here, and \<open>created_at\<close> is the
  reading of the clock when the object was built.
\<close>

record ticket =
  id_ticket :: string
  priority :: string
  ticket_type :: string
  status :: string
  assigned_agent :: "string option"
  assigned_agent_id :: "string option"
  created_at :: nat
  neural_network_prediction :: "string option"
  prediction_confidence :: "real option"

text \<open>
  The loaded network is kept abstract: it stands for the floating-point forward pass and
  the decoding of its three outputs in \<open>predict_agent\<close>, as a function from the two
  feature codes to the predicted agent, its confidence and the per-agent probabilities.
  The numbers are carried, never computed with.
\<close>

type_synonym prediction = "string \<times> real \<times> (string \<times> real) list"

type_synonym network = "nat \<Rightarrow> nat \<Rightarrow> prediction"

text \<open>
  The attributes of a \<open>TicketClassifier\<close>. \<open>agent_tickets\<close> keeps the order of its keys,
  which the last step of the routing iterates; the deques are lists, the left end first.
\<close>

record classifier =
  nn :: "network option"
  model_loaded :: bool
  agent_tickets :: "(string \<times> string list) list"
  high_priority_queue :: "string list"
  medium_priority_queue :: "string list"
  low_priority_queue :: "string list"
  tickets :: "string \<rightharpoonup> ticket"

text \<open>
  Exceptions. \<open>InvalidPriority\<close>, \<open>InvalidType\<close> and \<open>TicketNotFound\<close> are the three
  \<open>ValueError\<close>s raised by the code itself, \<open>NotInDeque\<close> is the \<open>ValueError\<close> of
  \<open>deque.remove\<close>, \<open>KeyError\<close> that of a dictionary read, \<open>ModelNotLoaded\<close> the
  \<open>RuntimeError\<close> of \<open>predict_agent\<close>, and \<open>NoNetwork\<close> the \<open>AttributeError\<close> of a call
  on \<open>self.nn\<close> while it is \<open>None\<close>.
\<close>

datatype error =
    InvalidPriority string
  | InvalidType string
  | TicketNotFound string
  | NotInDeque string
  | KeyError string
  | ModelNotLoaded
  | NoNetwork

text \<open>
  Every method mutates the classifier object, and what it mutated before raising stays
  mutated: a method returns its result or its exception together with the state it left.
\<close>

type_synonym 'a outcome = "(error + 'a) \<times> classifier"

record assignment =
  a_ticket_id :: string
  a_assigned_agent :: string
  a_assigned_agent_id :: string

record create_result =
  r_ticket_id :: string
  r_priority :: string
  r_type :: string
  r_status :: string
  r_assigned_agent :: "string option"
  r_assigned_agent_id :: "string option"
  r_neural_network_prediction :: "string option"
  r_prediction_confidence :: "real option"
  r_prediction_probabilities :: "(string \<times> real) list option"
  r_queued :: bool

datatype close_result =
    AlreadyClosed string
  | Closed string "string option" "assignment list"

text \<open>\<open>__init__\<close>: the argument says whether a model file was found and loaded.\<close>

definition init :: "network option \<Rightarrow> classifier" where
  "init loaded =
     \<lparr>nn = loaded,
      model_loaded = (loaded \<noteq> None),
      agent_tickets = [(''Agent 1'', []), (''Agent 2'', []), (''Agent 3'', [])],
      high_priority_queue = [],
      medium_priority_queue = [],
      low_priority_queue = [],
      tickets = Map.empty\<rparr>"


section \<open>Agent registry\<close>

text \<open>\<open>predict_agent\<close>, with the two dictionary reads of \<open>_encode_input\<close>.\<close>

definition predict_agent :: "classifier \<Rightarrow> string \<Rightarrow> string \<Rightarrow> error + prediction" where
  "predict_agent s prio ttype =
     (if \<not> model_loaded s then Inl ModelNotLoaded
      else case map_of PRIORITY_ENCODING (lower prio) of
             None \<Rightarrow> Inl (KeyError (lower prio))
           | Some pc \<Rightarrow>
               (case map_of TYPE_ENCODING (lower ttype) of
                  None \<Rightarrow> Inl (KeyError (lower ttype))
                | Some tc \<Rightarrow>
                    (case nn s of None \<Rightarrow> Inl NoNetwork | Some f \<Rightarrow> Inr (f pc tc))))"

definition get_agent_load :: "classifier \<Rightarrow> string \<Rightarrow> nat" where
  "get_agent_load s agent =
     length (dict_get (agent_tickets s) agent [])"

definition is_agent_available :: "classifier \<Rightarrow> string \<Rightarrow> bool" where
  "is_agent_available s agent \<longleftrightarrow> get_agent_load s agent < MAX_TICKETS_PER_AGENT"

definition get_available_agents :: "classifier \<Rightarrow> string list" where
  "get_available_agents s = filter (is_agent_available s) (map fst (agent_tickets s))"


section \<open>Priority queues\<close>

text \<open>
  \<open>_get_queue_for_priority\<close> returns one of the three deques, which the caller then
  mutates: here it returns the name of the deque, read with \<open>queue\<close> and written with
  \<open>queue_update\<close>.
\<close>

datatype queue_name = High | Medium | Low

definition get_queue_for_priority :: "string \<Rightarrow> queue_name" where
  "get_queue_for_priority prio =
     (if prio = ''high'' then High else if prio = ''medium'' then Medium else Low)"

fun queue :: "classifier \<Rightarrow> queue_name \<Rightarrow> string list" where
  "queue s High = high_priority_queue s"
| "queue s Medium = medium_priority_queue s"
| "queue s Low = low_priority_queue s"

fun queue_update :: "queue_name \<Rightarrow> (string list \<Rightarrow> string list) \<Rightarrow> classifier \<Rightarrow> classifier" where
  "queue_update High f s = s\<lparr>high_priority_queue := f (high_priority_queue s)\<rparr>"
| "queue_update Medium f s = s\<lparr>medium_priority_queue := f (medium_priority_queue s)\<rparr>"
| "queue_update Low f s = s\<lparr>low_priority_queue := f (low_priority_queue s)\<rparr>"


section \<open>Routing engine\<close>

text \<open>
  \<open>_find_available_agent\<close>: the primary agent of the type if it has room; nothing more
  for a high priority; else the first configured secondary agent with room; else the
  first agent of the registry with room.
\<close>

definition find_available_agent :: "classifier \<Rightarrow> string \<Rightarrow> string \<Rightarrow> string option" where
  "find_available_agent s prio0 ttype0 =
     (let prio = lower prio0;
          ttype = lower ttype0;
          primary_agent = map_of TYPE_TO_PRIMARY_AGENT ttype
      in if truthy primary_agent \<and>
            (case primary_agent of None \<Rightarrow> False | Some a \<Rightarrow> is_agent_available s a)
         then primary_agent
         else if prio = ''high'' then None
         else
           (let secondary_agents = dict_get SECONDARY_ASSIGNMENTS (prio, ttype) []
            in case List.find (is_agent_available s) secondary_agents of
                 Some a \<Rightarrow> Some a
               | None \<Rightarrow> List.find (is_agent_available s) (map fst (agent_tickets s))))"

text \<open>
  The assignment block shared by \<open>create_ticket\<close> and \<open>_process_queues\<close>: the four
  statements that set the agent, its external id and the status on the ticket object
  (which is the one stored under \<open>tid\<close>) and append the id to the agent's list.
\<close>

definition assign_ticket :: "classifier \<Rightarrow> string \<Rightarrow> ticket \<Rightarrow> string \<Rightarrow> string outcome" where
  "assign_ticket s tid t agent =
     (let t1 = t\<lparr>assigned_agent := Some agent\<rparr>;
          s1 = s\<lparr>tickets := (tickets s)(tid \<mapsto> t1)\<rparr>
      in case map_of AGENT_IDS agent of
           None \<Rightarrow> (Inl (KeyError agent), s1)
         | Some aid \<Rightarrow>
             (let t2 = t1\<lparr>assigned_agent_id := Some aid, status := STATUS_PENDING\<rparr>;
                  s2 = s1\<lparr>tickets := (tickets s1)(tid \<mapsto> t2)\<rparr>
              in case map_of (agent_tickets s2) agent of
                   None \<Rightarrow> (Inl (KeyError agent), s2)
                 | Some l \<Rightarrow>
                     (Inr aid,
                      s2\<lparr>agent_tickets := AList.update agent (l @ [tid]) (agent_tickets s2)\<rparr>)))"

text \<open>
  \<open>create_ticket\<close>; \<open>now\<close> is what \<open>datetime.now()\<close> returns when the ticket is built.
  Nothing is mutated before the validation and the prediction have passed.
\<close>

definition create_ticket ::
  "classifier \<Rightarrow> string \<Rightarrow> string \<Rightarrow> string \<Rightarrow> nat \<Rightarrow> create_result outcome" where
  "create_ticket s tid prio0 ttype0 now =
     (let prio = lower prio0; ttype = lower ttype0
      in if prio \<notin> set PRIORITY_LEVELS then (Inl (InvalidPriority prio), s)
         else if ttype \<notin> set TICKET_TYPES then (Inl (InvalidType ttype), s)
         else
           case (if model_loaded s then map_sum (\<lambda>e. e) Some (predict_agent s prio ttype)
                 else Inr None) of
             Inl e \<Rightarrow> (Inl e, s)
           | Inr pred \<Rightarrow>
               (let nn_prediction = map_option fst pred;
                    nn_confidence = map_option (fst \<circ> snd) pred;
                    nn_probabilities = map_option (snd \<circ> snd) pred;
                    t = \<lparr>id_ticket = tid, priority = prio, ticket_type = ttype,
                         status = STATUS_OPEN, assigned_agent = None,
                         assigned_agent_id = None, created_at = now,
                         neural_network_prediction = nn_prediction,
                         prediction_confidence = nn_confidence\<rparr>;
                    s1 = s\<lparr>tickets := (tickets s)(tid \<mapsto> t)\<rparr>;
                    found = find_available_agent s1 prio ttype;
                    res = (\<lambda>st agent aid.
                             \<lparr>r_ticket_id = tid, r_priority = prio, r_type = ttype,
                              r_status = st, r_assigned_agent = agent,
                              r_assigned_agent_id = aid,
                              r_neural_network_prediction = nn_prediction,
                              r_prediction_confidence = nn_confidence,
                              r_prediction_probabilities = nn_probabilities,
                              r_queued = (st = STATUS_OPEN)\<rparr>)
                in case if_truthy found of
                     Some agent \<Rightarrow>
                       (case assign_ticket s1 tid t agent of
                          (Inl e, s2) \<Rightarrow> (Inl e, s2)
                        | (Inr aid, s2) \<Rightarrow>
                            (Inr (res STATUS_PENDING (Some agent) (Some aid)), s2))
                   | None \<Rightarrow>
                       (let s2 = queue_update (get_queue_for_priority prio) (\<lambda>q. q @ [tid]) s1;
                            s3 = s2\<lparr>tickets := (tickets s2)(tid \<mapsto> t\<lparr>status := STATUS_OPEN\<rparr>)\<rparr>
                        in (Inr (res STATUS_OPEN (assigned_agent t) (assigned_agent_id t)), s3))))"

text \<open>
  The inner loop of \<open>_process_queues\<close> over one queue: \<open>rem\<close> is \<open>tickets_to_remove\<close>,
  \<open>new\<close> is \<open>newly_assigned\<close>. The queue itself is not touched while it is iterated.
\<close>

fun assign_from_queue ::
  "string list \<Rightarrow> classifier \<Rightarrow> string list \<Rightarrow> assignment list \<Rightarrow>
   (string list \<times> assignment list) outcome" where
  "assign_from_queue [] s rem new = (Inr (rem, new), s)"
| "assign_from_queue (tid # rest) s rem new =
     (case tickets s tid of
        None \<Rightarrow> (Inl (KeyError tid), s)
      | Some t \<Rightarrow>
          (case if_truthy (find_available_agent s (priority t) (ticket_type t)) of
             Some agent \<Rightarrow>
               (case assign_ticket s tid t agent of
                  (Inl e, s1) \<Rightarrow> (Inl e, s1)
                | (Inr aid, s1) \<Rightarrow>
                    assign_from_queue rest s1 (rem @ [tid])
                      (new @ [\<lparr>a_ticket_id = tid, a_assigned_agent = agent,
                               a_assigned_agent_id = aid\<rparr>]))
           | None \<Rightarrow> assign_from_queue rest s rem new))"

text \<open>The second loop: \<open>queue.remove(ticket_id)\<close> for each collected id.\<close>

fun remove_from_queue :: "queue_name \<Rightarrow> string list \<Rightarrow> classifier \<Rightarrow> unit outcome" where
  "remove_from_queue qn [] s = (Inr (), s)"
| "remove_from_queue qn (tid # rest) s =
     (if tid \<in> set (queue s qn)
      then remove_from_queue qn rest (queue_update qn (remove1 tid) s)
      else (Inl (NotInDeque tid), s))"

text \<open>The outer loop over the list of the three queues.\<close>

fun process_queue_list ::
  "queue_name list \<Rightarrow> classifier \<Rightarrow> assignment list \<Rightarrow> assignment list outcome" where
  "process_queue_list [] s new = (Inr new, s)"
| "process_queue_list (qn # qns) s new =
     (case assign_from_queue (queue s qn) s [] new of
        (Inl e, s1) \<Rightarrow> (Inl e, s1)
      | (Inr (rem, new1), s1) \<Rightarrow>
          (case remove_from_queue qn rem s1 of
             (Inl e, s2) \<Rightarrow> (Inl e, s2)
           | (Inr _, s2) \<Rightarrow> process_queue_list qns s2 new1))"

definition process_queues :: "classifier \<Rightarrow> assignment list outcome" where
  "process_queues s = process_queue_list [High, Medium, Low] s []"

text \<open>
  The part of \<open>close_ticket\<close> between the status check and the drain: the ticket is
  marked closed and taken off the list of the agent recorded on it.
\<close>

definition release_ticket :: "classifier \<Rightarrow> string \<Rightarrow> ticket \<Rightarrow> unit outcome" where
  "release_ticket s tid t =
     (let agent = assigned_agent t;
          s1 = s\<lparr>tickets := (tickets s)(tid \<mapsto> t\<lparr>status := STATUS_CLOSED\<rparr>)\<rparr>
      in case if_truthy agent of
           None \<Rightarrow> (Inr (), s1)
         | Some a \<Rightarrow>
             (case map_of (agent_tickets s1) a of
                None \<Rightarrow> (Inl (KeyError a), s1)
              | Some l \<Rightarrow>
                  if tid \<in> set l
                  then (Inr (),
                        s1\<lparr>agent_tickets := AList.update a (remove1 tid l) (agent_tickets s1)\<rparr>)
                  else (Inr (), s1)))"

text \<open>
  \<open>close_ticket\<close>: the two early exits, the release, and the drain whose list of new
  assignments is returned.
\<close>

definition close_ticket :: "classifier \<Rightarrow> string \<Rightarrow> close_result outcome" where
  "close_ticket s tid =
     (case tickets s tid of
        None \<Rightarrow> (Inl (TicketNotFound tid), s)
      | Some t \<Rightarrow>
          if status t = STATUS_CLOSED then (Inr (AlreadyClosed tid), s)
          else
            (case release_ticket s tid t of
               (Inl e, s1) \<Rightarrow> (Inl e, s1)
             | (Inr _, s1) \<Rightarrow>
                 (case process_queues s1 of
                    (Inl e, s2) \<Rightarrow> (Inl e, s2)
                  | (Inr newly_assigned, s2) \<Rightarrow>
                      (Inr (Closed tid (assigned_agent t) newly_assigned), s2))))"


section \<open>Sequences of operations\<close>

text \<open>
  The calls a client can make on one classifier object, each creation with the clock
  reading it gets. A call leaves the object in the state it has when it returns or
  raises, and the next call starts from there.
\<close>

datatype op =
    CreateTicket string string string nat
  | CloseTicket string
  | DrainQueues

fun step :: "classifier \<Rightarrow> op \<Rightarrow> classifier" where
  "step s (CreateTicket tid prio ttype now) = snd (create_ticket s tid prio ttype now)"
| "step s (CloseTicket tid) = snd (close_ticket s tid)"
| "step s DrainQueues = snd (process_queues s)"

fun run :: "classifier \<Rightarrow> op list \<Rightarrow> classifier" where
  "run s [] = s"
| "run s (x # xs) = run (step s x) xs"


section \<open>Notions used in the verification\<close>

subsection \<open>The registry and the places a ticket id can be\<close>

text \<open>
  The three keys of \<open>agent_tickets\<close>, in the order of the dictionary literal; the code
  never adds or deletes a key, so every state it reaches has exactly these.
\<close>

definition agent_names :: "string list" where
  "agent_names = [''Agent 1'', ''Agent 2'', ''Agent 3'']"

definition wf_agents :: "classifier \<Rightarrow> bool" where
  "wf_agents s \<longleftrightarrow> map fst (agent_tickets s) = agent_names"

text \<open>The list of an agent, as \<open>get_agent_load\<close> reads it.\<close>

abbreviation workload :: "classifier \<Rightarrow> string \<Rightarrow> string list" where
  "workload s a \<equiv> dict_get (agent_tickets s) a []"

text \<open>
  The ids held by the three queues, by the agents' lists, and by both; and the same ids
  container by container.
\<close>

definition queued :: "classifier \<Rightarrow> string list" where
  "queued s = queue s High @ queue s Medium @ queue s Low"

definition held :: "classifier \<Rightarrow> string list" where
  "held s = concat (map snd (agent_tickets s))"

definition slots :: "classifier \<Rightarrow> string list" where
  "slots s = queued s @ held s"

definition containers :: "classifier \<Rightarrow> string list list" where
  "containers s = [queue s High, queue s Medium, queue s Low] @ map snd (agent_tickets s)"

text \<open>Every queued id is a key of the ticket store.\<close>

definition queued_known :: "classifier \<Rightarrow> bool" where
  "queued_known s \<longleftrightarrow> (\<forall>qn. set (queue s qn) \<subseteq> dom (tickets s))"


subsection \<open>The effect of the operations when nothing is raised\<close>

text \<open>
  The state after the assignment block has run to its end: what \<open>assign_ticket\<close>
  returns when the agent is one of the registry.
\<close>

definition assigned :: "classifier \<Rightarrow> string \<Rightarrow> ticket \<Rightarrow> string \<Rightarrow> classifier" where
  "assigned s tid t a =
     s\<lparr>tickets := (tickets s)(tid \<mapsto>
          t\<lparr>assigned_agent := Some a, assigned_agent_id := map_of AGENT_IDS a,
            status := STATUS_PENDING\<rparr>),
       agent_tickets := AList.update a (workload s a @ [tid]) (agent_tickets s)\<rparr>"

text \<open>The ticket object that \<open>create_ticket\<close> builds, and the state after routing it.\<close>

definition new_ticket :: "string \<Rightarrow> string \<Rightarrow> string \<Rightarrow> nat \<Rightarrow> prediction option \<Rightarrow> ticket" where
  "new_ticket tid prio ttype now pred =
     \<lparr>id_ticket = tid, priority = prio, ticket_type = ttype, status = STATUS_OPEN,
      assigned_agent = None, assigned_agent_id = None, created_at = now,
      neural_network_prediction = map_option fst pred,
      prediction_confidence = map_option (fst \<circ> snd) pred\<rparr>"

definition enroute :: "classifier \<Rightarrow> string \<Rightarrow> ticket \<Rightarrow> classifier" where
  "enroute s tid t =
     (case find_available_agent s (priority t) (ticket_type t) of
        Some a \<Rightarrow> assigned s tid t a
      | None \<Rightarrow>
          queue_update (get_queue_for_priority (priority t)) (\<lambda>q. q @ [tid])
            (s\<lparr>tickets := (tickets s)(tid \<mapsto> t)\<rparr>))"

text \<open>The state that \<open>release_ticket\<close> leaves when the ticket's agent is one of the registry.\<close>

definition released :: "classifier \<Rightarrow> string \<Rightarrow> ticket \<Rightarrow> classifier" where
  "released s tid t =
     (let s1 = s\<lparr>tickets := (tickets s)(tid \<mapsto> t\<lparr>status := STATUS_CLOSED\<rparr>)\<rparr>
      in case assigned_agent t of
           None \<Rightarrow> s1
         | Some a \<Rightarrow>
             s1\<lparr>agent_tickets := AList.update a (remove1 tid (workload s a)) (agent_tickets s)\<rparr>)"


subsection \<open>The drain as the specification describes it\<close>

text \<open>
  This second description of the drain follows the words of the specification, to be
  compared with \<open>process_queues\<close>: the three queues are walked in the order high, medium,
  low, each in insertion order; each ticket met is given to the assignment decision; on
  success it leaves the queue for the agent's list and becomes pending, on failure it
  stays where it is and the walk goes on. The walk keeps a trace: the ids in the order
  visited, each with the decision taken.
\<close>

definition visit :: "classifier \<Rightarrow> string \<Rightarrow> string option \<times> classifier" where
  "visit s tid =
     (case tickets s tid of
        None \<Rightarrow> (None, s)
      | Some t \<Rightarrow>
          (case if_truthy (find_available_agent s (priority t) (ticket_type t)) of
             None \<Rightarrow> (None, s)
           | Some a \<Rightarrow> (Some a, assigned s tid t a)))"

fun drain_walk :: "string list \<Rightarrow> classifier \<Rightarrow> (string \<times> string option) list \<times> classifier" where
  "drain_walk [] s = ([], s)"
| "drain_walk (tid # rest) s =
     (case visit s tid of (d, s1) \<Rightarrow>
        (case drain_walk rest s1 of (tr, s2) \<Rightarrow> ((tid, d) # tr, s2)))"

text \<open>
  Of a trace: the ids left in place, the ids assigned, and the list of new assignments
  reported to the caller.
\<close>

fun kept :: "(string \<times> string option) list \<Rightarrow> string list" where
  "kept [] = []"
| "kept ((tid, None) # tr) = tid # kept tr"
| "kept ((tid, Some a) # tr) = kept tr"

fun taken :: "(string \<times> string option) list \<Rightarrow> string list" where
  "taken [] = []"
| "taken ((tid, None) # tr) = taken tr"
| "taken ((tid, Some a) # tr) = tid # taken tr"

fun newly :: "(string \<times> string option) list \<Rightarrow> assignment list" where
  "newly [] = []"
| "newly ((tid, None) # tr) = newly tr"
| "newly ((tid, Some a) # tr) =
     \<lparr>a_ticket_id = tid, a_assigned_agent = a,
      a_assigned_agent_id = dict_get AGENT_IDS a []\<rparr> # newly tr"

definition drain_tier ::
  "queue_name \<Rightarrow> classifier \<Rightarrow> (string \<times> string option) list \<times> classifier" where
  "drain_tier qn s =
     (case drain_walk (queue s qn) s of
        (tr, s1) \<Rightarrow> (tr, queue_update qn (\<lambda>_. kept tr) s1))"

definition drain_spec :: "classifier \<Rightarrow> (string \<times> string option) list \<times> classifier" where
  "drain_spec s =
     (case drain_tier High s of (l1, s1) \<Rightarrow>
        (case drain_tier Medium s1 of (l2, s2) \<Rightarrow>
           (case drain_tier Low s2 of (l3, s3) \<Rightarrow> (l1 @ l2 @ l3, s3))))"

text \<open>
  In a trace of one queue, no id is first left in place and later assigned: what makes
  removal by value (\<open>deque.remove\<close>) remove the positions that were assigned.
\<close>

fun trace_ok :: "(string \<times> string option) list \<Rightarrow> bool" where
  "trace_ok [] = True"
| "trace_ok ((tid, d) # tr) = ((d = None \<longrightarrow> tid \<notin> set (taken tr)) \<and> trace_ok tr)"

text \<open>The ids that a trace assigns to one agent.\<close>

definition drained_to :: "string \<Rightarrow> (string \<times> string option) list \<Rightarrow> string list" where
  "drained_to b tr = map a_ticket_id (filter (\<lambda>n. a_assigned_agent n = b) (newly tr))"


subsection \<open>Invariants\<close>

text \<open>
  A stored ticket is well formed: its priority, type and status are of the three
  enumerations, and the agent it carries, if any, is of the registry, and is the primary
  agent of the ticket's type when the priority is high.
\<close>

definition ticket_ok :: "ticket \<Rightarrow> bool" where
  "ticket_ok t \<longleftrightarrow>
     priority t \<in> set PRIORITY_LEVELS \<and> ticket_type t \<in> set TICKET_TYPES \<and>
     status t \<in> {STATUS_OPEN, STATUS_PENDING, STATUS_CLOSED} \<and>
     (\<forall>a. assigned_agent t = Some a \<longrightarrow>
        a \<in> set agent_names \<and>
        (priority t = ''high'' \<longrightarrow> map_of TYPE_TO_PRIMARY_AGENT (ticket_type t) = Some a))"

text \<open>
  The invariant of all runs: the registry is intact, every id in a queue or on a list is
  stored, no list exceeds the capacity, every stored ticket is well formed.
\<close>

definition base_inv :: "classifier \<Rightarrow> bool" where
  "base_inv s \<longleftrightarrow>
     wf_agents s \<and> set (slots s) \<subseteq> dom (tickets s) \<and>
     (\<forall>a. length (workload s a) \<le> MAX_TICKETS_PER_AGENT) \<and>
     (\<forall>tid t. tickets s tid = Some t \<longrightarrow> ticket_ok t)"

text \<open>
  The ids of the tickets that a sequence of operations creates: those of the calls of
  \<open>create_ticket\<close> that pass the validation.
\<close>

fun created_ids :: "op list \<Rightarrow> string list" where
  "created_ids [] = []"
| "created_ids (CreateTicket tid prio ttype now # xs) =
     (if lower prio \<in> set PRIORITY_LEVELS \<and> lower ttype \<in> set TICKET_TYPES
      then tid # created_ids xs else created_ids xs)"
| "created_ids (CloseTicket tid # xs) = created_ids xs"
| "created_ids (DrainQueues # xs) = created_ids xs"

text \<open>
  The invariant of the runs that create distinct ids: no id occurs twice in the queues
  and lists taken together, an open ticket is queued, a pending ticket is on a list.
\<close>

definition place_inv :: "classifier \<Rightarrow> bool" where
  "place_inv s \<longleftrightarrow>
     distinct (slots s) \<and>
     (\<forall>tid t. tickets s tid = Some t \<longrightarrow>
        (status t = STATUS_OPEN \<longrightarrow> tid \<in> set (queued s)) \<and>
        (status t = STATUS_PENDING \<longrightarrow> tid \<in> set (held s)))"

text \<open>No queued ticket could be assigned as things stand.\<close>

definition stable :: "classifier \<Rightarrow> bool" where
  "stable s \<longleftrightarrow> (\<forall>tid \<in> set (queued s). fst (visit s tid) = None)"

text \<open>
  The second state has the registry intact, differs from the first on no list but that
  of the agent, and stores the same priorities and types.
\<close>

definition only_agent :: "string \<Rightarrow> classifier \<Rightarrow> classifier \<Rightarrow> bool" where
  "only_agent a s s' \<longleftrightarrow>
     wf_agents s' \<and>
     (\<forall>b. b \<noteq> a \<longrightarrow> workload s' b = workload s b) \<and>
     (\<forall>x. map_option (\<lambda>t. (priority t, ticket_type t)) (tickets s' x) =
          map_option (\<lambda>t. (priority t, ticket_type t)) (tickets s x))"


subsection \<open>The routing state without the advisory fields\<close>

definition strip_advisory :: "ticket \<Rightarrow> ticket" where
  "strip_advisory t = t\<lparr>neural_network_prediction := None, prediction_confidence := None\<rparr>"

definition routing_state ::
  "classifier \<Rightarrow>
   (string \<times> string list) list \<times> string list \<times> string list \<times> string list \<times>
   (string \<rightharpoonup> ticket)" where
  "routing_state s =
     (agent_tickets s, high_priority_queue s, medium_priority_queue s, low_priority_queue s,
      map_option strip_advisory \<circ> tickets s)"

definition routing_outcome :: "create_result \<Rightarrow> create_result" where
  "routing_outcome r =
     r\<lparr>r_neural_network_prediction := None, r_prediction_confidence := None,
       r_prediction_probabilities := None\<rparr>"


subsection \<open>Scenarios\<close>

text \<open>Six high-priority software tickets, one more than the specialist holds.\<close>

definition six_high_software :: "op list" where
  "six_high_software =
     [CreateTicket ''T1'' ''high'' ''software'' 0,
      CreateTicket ''T2'' ''high'' ''software'' 1,
      CreateTicket ''T3'' ''high'' ''software'' 2,
      CreateTicket ''T4'' ''high'' ''software'' 3,
      CreateTicket ''T5'' ''high'' ''software'' 4,
      CreateTicket ''T6'' ''high'' ''software'' 5]"


text \<open>A network that predicts the hardware specialist whatever the ticket.\<close>

definition fixed_network :: network where
  "fixed_network pc tc =
     (''Agent 2'', 1, [(''Agent 1'', 0), (''Agent 2'', 1), (''Agent 3'', 0)])"

text \<open>
  An id created twice: the hardware specialist is filled, \<open>X\<close> is created as a
  high-priority hardware ticket and queued, then created again as a high-priority
  software ticket, and a network ticket follows. \<open>create_ticket\<close> has no test for an
  id that is already stored: the second creation overwrites the stored ticket and puts
  the id on the software specialist's list, and the first entry stays in the high queue.
\<close>

definition reused_id :: "op list" where
  "reused_id =
     [CreateTicket ''H1'' ''high'' ''hardware'' 0,
      CreateTicket ''H2'' ''high'' ''hardware'' 1,
      CreateTicket ''H3'' ''high'' ''hardware'' 2,
      CreateTicket ''H4'' ''high'' ''hardware'' 3,
      CreateTicket ''H5'' ''high'' ''hardware'' 4,
      CreateTicket ''X'' ''high'' ''hardware'' 5,
      CreateTicket ''X'' ''high'' ''software'' 6,
      CreateTicket ''N1'' ''high'' ''network'' 7]"


section \<open>Lemmas\<close>

lemma find_SomeD: "List.find P xs = Some x \<Longrightarrow> x \<in> set xs \<and> P x"
  by (induction xs) (auto split: if_splits)

lemma lower_levels: "p \<in> set PRIORITY_LEVELS \<Longrightarrow> lower p = p"
  unfolding PRIORITY_LEVELS_def by (auto; code_simp)

lemma lower_types: "p \<in> set TICKET_TYPES \<Longrightarrow> lower p = p"
  unfolding TICKET_TYPES_def by (auto; code_simp)

lemma primary_known:
  "map_of TYPE_TO_PRIMARY_AGENT t = Some a \<Longrightarrow> a \<in> set agent_names"
  by (auto simp: TYPE_TO_PRIMARY_AGENT_def agent_names_def split: if_splits)

lemma secondary_known:
  "set (dict_get SECONDARY_ASSIGNMENTS k []) \<subseteq> set agent_names"
  by (auto simp: dict_get_def SECONDARY_ASSIGNMENTS_def agent_names_def split: if_splits)

lemma agent_id_known:
  "a \<in> set agent_names \<Longrightarrow> \<exists>aid. map_of AGENT_IDS a = Some aid"
  by (auto simp: AGENT_IDS_def agent_names_def)

lemma agent_names_nonempty: "a \<in> set agent_names \<Longrightarrow> a \<noteq> []"
  by (auto simp: agent_names_def)

lemma wf_agents_lookup:
  "wf_agents s \<Longrightarrow> a \<in> set agent_names \<Longrightarrow> map_of (agent_tickets s) a = Some (workload s a)"
proof -
  assume w: "wf_agents s" and a: "a \<in> set agent_names"
  then have "a \<in> fst ` set (agent_tickets s)"
    by (metis wf_agents_def set_map)
  then obtain l where "map_of (agent_tickets s) a = Some l"
    by (metis domD dom_map_of_conv_image_fst)
  then show ?thesis by (simp add: dict_get_def)
qed

lemma find_available_agent_Some:
  assumes "wf_agents s" and "find_available_agent s p t = Some a"
  shows "a \<in> set agent_names \<and> is_agent_available s a"
proof -
  let ?sec = "dict_get SECONDARY_ASSIGNMENTS (lower p, lower t) []"
  have keys: "set (map fst (agent_tickets s)) = set agent_names"
    using assms(1) by (simp add: wf_agents_def)
  from assms(2) consider
      (primary) "map_of TYPE_TO_PRIMARY_AGENT (lower t) = Some a" "is_agent_available s a"
    | (secondary) "List.find (is_agent_available s) ?sec = Some a"
    | (anyone) "List.find (is_agent_available s) (map fst (agent_tickets s)) = Some a"
    by (auto simp: find_available_agent_def Let_def split: if_splits option.splits)
  then show ?thesis
  proof cases
    case primary
    then show ?thesis by (auto dest: primary_known)
  next
    case secondary
    then have "a \<in> set ?sec" "is_agent_available s a"
      by (auto dest: find_SomeD)
    with secondary_known show ?thesis by blast
  next
    case anyone
    then have "a \<in> set (map fst (agent_tickets s))" "is_agent_available s a"
      by (auto dest: find_SomeD)
    with keys show ?thesis by blast
  qed
qed

lemma find_available_agent_None_iff:
  "find_available_agent s p t = None \<longleftrightarrow>
     (\<forall>a. map_of TYPE_TO_PRIMARY_AGENT (lower t) = Some a \<longrightarrow> a = [] \<or> \<not> is_agent_available s a) \<and>
     (lower p = ''high'' \<or>
      (\<forall>a \<in> set (dict_get SECONDARY_ASSIGNMENTS (lower p, lower t) []). \<not> is_agent_available s a) \<and>
      (\<forall>a \<in> set (map fst (agent_tickets s)). \<not> is_agent_available s a))"
  by (cases "map_of TYPE_TO_PRIMARY_AGENT (lower t)")
    (auto simp: find_available_agent_def Let_def find_None_iff split: option.splits
          dest: find_SomeD)

lemma find_available_agent_None_mono:
  assumes "find_available_agent s p t = None"
    and "\<And>a. is_agent_available s' a \<Longrightarrow> is_agent_available s a"
    and "map fst (agent_tickets s') = map fst (agent_tickets s)"
  shows "find_available_agent s' p t = None"
  using assms unfolding find_available_agent_None_iff by metis

subsection \<open>assigned\<close>

lemma wf_agents_key: "wf_agents s \<Longrightarrow> a \<in> set agent_names \<Longrightarrow> a \<in> fst ` set (agent_tickets s)"
  by (metis wf_agents_def set_map)

lemma wf_agents_assigned:
  "wf_agents s \<Longrightarrow> a \<in> set agent_names \<Longrightarrow> wf_agents (assigned s tid t a)"
  using wf_agents_key [of s a] by (simp add: wf_agents_def assigned_def update_keys)

lemma tickets_assigned:
  "tickets (assigned s tid t a) =
     (tickets s)(tid \<mapsto> t\<lparr>assigned_agent := Some a, assigned_agent_id := map_of AGENT_IDS a,
                            status := STATUS_PENDING\<rparr>)"
  by (simp add: assigned_def)

lemma queue_assigned: "queue (assigned s tid t a) qn = queue s qn"
  by (cases qn) (simp_all add: assigned_def)

lemma workload_assigned:
  "workload (assigned s tid t a) b = (if b = a then workload s a @ [tid] else workload s b)"
  by (simp add: assigned_def dict_get_def update_conv')

lemma agent_keys_assigned:
  "wf_agents s \<Longrightarrow> a \<in> set agent_names \<Longrightarrow>
   map fst (agent_tickets (assigned s tid t a)) = map fst (agent_tickets s)"
  using wf_agents_key [of s a] by (simp add: assigned_def update_keys)

lemma available_assigned:
  "is_agent_available (assigned s tid t a) b \<Longrightarrow> is_agent_available s b"
  by (auto simp: is_agent_available_def get_agent_load_def workload_assigned split: if_splits)

lemma assign_ticket_assigned:
  assumes "wf_agents s" and "a \<in> set agent_names"
  shows "assign_ticket s tid t a = (Inr (dict_get AGENT_IDS a []), assigned s tid t a)"
proof -
  obtain aid where aid: "map_of AGENT_IDS a = Some aid"
    using agent_id_known [OF assms(2)] by blast
  obtain l where l: "map_of (agent_tickets s) a = Some l"
    using wf_agents_lookup [OF assms] by blast
  have w: "workload s a = l" and d: "dict_get AGENT_IDS a [] = aid"
    by (simp_all add: dict_get_def l aid)
  show ?thesis
    unfolding w d assigned_def w
    by (simp add: assign_ticket_def Let_def aid l)
qed

lemma if_truthy_find:
  "wf_agents s \<Longrightarrow> if_truthy (find_available_agent s p t) = find_available_agent s p t"
  by (cases "find_available_agent s p t")
    (auto dest: find_available_agent_Some agent_names_nonempty)

subsection \<open>visit\<close>

lemma visit_cases [consumes 1, case_names stay move]:
  assumes "wf_agents s"
  obtains (stay) "visit s tid = (None, s)"
    | (move) t a where "tickets s tid = Some t"
        "find_available_agent s (priority t) (ticket_type t) = Some a"
        "a \<in> set agent_names" "is_agent_available s a"
        "visit s tid = (Some a, assigned s tid t a)"
proof (cases "tickets s tid")
  case None
  then show ?thesis using stay by (simp add: visit_def)
next
  case (Some t)
  note t = this
  show ?thesis
  proof (cases "find_available_agent s (priority t) (ticket_type t)")
    case None
    then show ?thesis using stay t by (simp add: visit_def)
  next
    case (Some a)
    have a: "a \<in> set agent_names" "is_agent_available s a"
      using find_available_agent_Some [OF assms Some] by simp_all
    have "visit s tid = (Some a, assigned s tid t a)"
      using t Some agent_names_nonempty [OF a(1)] by (simp add: visit_def)
    then show ?thesis using move t Some a by blast
  qed
qed

lemma visit_wf: "wf_agents s \<Longrightarrow> wf_agents (snd (visit s tid))"
  by (rule visit_cases [of s tid]) (simp_all add: wf_agents_assigned)

lemma visit_dom: "wf_agents s \<Longrightarrow> dom (tickets s) \<subseteq> dom (tickets (snd (visit s tid)))"
  by (rule visit_cases [of s tid]) (auto simp: tickets_assigned)

lemma visit_queue: "wf_agents s \<Longrightarrow> queue (snd (visit s tid)) qn = queue s qn"
  by (rule visit_cases [of s tid]) (simp_all add: queue_assigned)

lemma visit_None_stays:
  assumes "wf_agents s" and "fst (visit s x) = None" and "fst (visit s y) \<noteq> None"
  shows "fst (visit (snd (visit s y)) x) = None"
proof -
  from assms(3) obtain t a where y: "tickets s y = Some t" "a \<in> set agent_names"
      "visit s y = (Some a, assigned s y t a)"
    using visit_cases [OF assms(1), of y] by (metis fst_conv)
  have xy: "x \<noteq> y" using assms(2,3) by auto
  let ?s' = "assigned s y t a"
  have tx: "tickets ?s' x = tickets s x" using xy by (simp add: tickets_assigned)
  have wf': "wf_agents ?s'" using assms(1) y(2) by (rule wf_agents_assigned)
  show ?thesis
  proof (cases "tickets s x")
    case None
    then show ?thesis using tx y(3) by (simp add: visit_def)
  next
    case (Some tx')
    have "find_available_agent s (priority tx') (ticket_type tx') = None"
      using assms(2) Some by (simp add: visit_def if_truthy_find [OF assms(1)] split: option.splits)
    then have "find_available_agent ?s' (priority tx') (ticket_type tx') = None"
      by (rule find_available_agent_None_mono)
        (auto dest: available_assigned simp: agent_keys_assigned [OF assms(1) y(2)])
    then show ?thesis using Some tx y(3) by (simp add: visit_def)
  qed
qed

subsection \<open>The first loop is the walk\<close>

lemma drain_walk_Cons:
  "drain_walk (tid # rest) s =
     ((tid, fst (visit s tid)) # fst (drain_walk rest (snd (visit s tid))),
      snd (drain_walk rest (snd (visit s tid))))"
  by (simp split: prod.splits)

declare drain_walk.simps(2) [simp del]

lemma drain_walk_wf: "wf_agents s \<Longrightarrow> wf_agents (snd (drain_walk q s))"
  by (induction q arbitrary: s) (simp_all add: drain_walk_Cons visit_wf)

lemma drain_walk_dom:
  "wf_agents s \<Longrightarrow> dom (tickets s) \<subseteq> dom (tickets (snd (drain_walk q s)))"
proof (induction q arbitrary: s)
  case Nil
  then show ?case by simp
next
  case (Cons tid rest)
  have "dom (tickets s) \<subseteq> dom (tickets (snd (visit s tid)))"
    using Cons.prems by (rule visit_dom)
  also have "\<dots> \<subseteq> dom (tickets (snd (drain_walk rest (snd (visit s tid)))))"
    using Cons.prems by (intro Cons.IH visit_wf)
  finally show ?case by (simp add: drain_walk_Cons)
qed

lemma drain_walk_queue:
  "wf_agents s \<Longrightarrow> queue (snd (drain_walk q s)) qn = queue s qn"
  by (induction q arbitrary: s) (simp_all add: drain_walk_Cons visit_wf visit_queue)

lemma map_fst_drain_walk: "map fst (fst (drain_walk q s)) = q"
  by (induction q arbitrary: s) (simp_all add: drain_walk_Cons)

lemma if_truthy_SomeD: "if_truthy x = Some a \<Longrightarrow> x = Some a \<and> a \<noteq> []"
  by (cases x) (auto split: if_splits)

lemma assign_from_queue_walk:
  assumes "wf_agents s" and "set q \<subseteq> dom (tickets s)"
  shows "assign_from_queue q s rem new =
           (Inr (rem @ taken (fst (drain_walk q s)), new @ newly (fst (drain_walk q s))),
            snd (drain_walk q s))"
  using assms
proof (induction q arbitrary: s rem new)
  case Nil
  then show ?case by simp
next
  case (Cons tid rest)
  then obtain t where t: "tickets s tid = Some t" by auto
  show ?case
  proof (cases "if_truthy (find_available_agent s (priority t) (ticket_type t))")
    case None
    then have v: "visit s tid = (None, s)" using t by (simp add: visit_def)
    have "assign_from_queue (tid # rest) s rem new = assign_from_queue rest s rem new"
      using t None by simp
    also have "\<dots> = (Inr (rem @ taken (fst (drain_walk rest s)),
                           new @ newly (fst (drain_walk rest s))), snd (drain_walk rest s))"
      using Cons.prems by (intro Cons.IH) auto
    finally show ?thesis by (simp add: drain_walk_Cons v)
  next
    case (Some a)
    then have f: "find_available_agent s (priority t) (ticket_type t) = Some a"
      by (auto dest: if_truthy_SomeD)
    have a: "a \<in> set agent_names"
      using find_available_agent_Some [OF Cons.prems(1) f] by simp
    let ?s1 = "assigned s tid t a"
    have v: "visit s tid = (Some a, ?s1)" using t Some by (simp add: visit_def)
    have wf1: "wf_agents ?s1" using Cons.prems(1) a by (rule wf_agents_assigned)
    have dom1: "set rest \<subseteq> dom (tickets ?s1)"
      using Cons.prems(2) by (auto simp: tickets_assigned)
    have "assign_from_queue (tid # rest) s rem new =
            assign_from_queue rest ?s1 (rem @ [tid])
              (new @ [\<lparr>a_ticket_id = tid, a_assigned_agent = a,
                       a_assigned_agent_id = dict_get AGENT_IDS a []\<rparr>])"
      using t Some by (simp add: assign_ticket_assigned [OF Cons.prems(1) a])
    also note Cons.IH [OF wf1 dom1]
    finally show ?thesis by (simp add: drain_walk_Cons v)
  qed
qed

subsection \<open>The second loop removes exactly the assigned positions\<close>

lemma taken_subset: "set (taken tr) \<subseteq> fst ` set tr"
  by (induction tr rule: taken.induct) auto

lemma visit_None_same: "fst (visit s y) = None \<Longrightarrow> snd (visit s y) = s"
  by (auto simp: visit_def split: option.splits)

lemma not_taken_walk:
  assumes "wf_agents s" and "fst (visit s x) = None"
  shows "x \<notin> set (taken (fst (drain_walk q s)))"
  using assms
proof (induction q arbitrary: s)
  case Nil
  then show ?case by simp
next
  case (Cons y rest)
  show ?case
  proof (cases "fst (visit s y)")
    case None
    then have "snd (visit s y) = s"
      by (rule visit_None_same)
    then show ?thesis using None Cons by (simp add: drain_walk_Cons)
  next
    case (Some a)
    then have xy: "x \<noteq> y" using Cons.prems(2) by auto
    have "fst (visit (snd (visit s y)) x) = None"
      using Cons.prems Some by (intro visit_None_stays) auto
    then have "x \<notin> set (taken (fst (drain_walk rest (snd (visit s y)))))"
      using Cons.prems(1) by (intro Cons.IH visit_wf)
    then show ?thesis using Some xy by (simp add: drain_walk_Cons)
  qed
qed

lemma trace_ok_walk: "wf_agents s \<Longrightarrow> trace_ok (fst (drain_walk q s))"
proof (induction q arbitrary: s)
  case Nil
  then show ?case by simp
next
  case (Cons y rest)
  have ok: "trace_ok (fst (drain_walk rest (snd (visit s y))))"
    using Cons.prems by (intro Cons.IH visit_wf)
  show ?case
  proof (cases "fst (visit s y)")
    case None
    then have same: "snd (visit s y) = s"
      by (rule visit_None_same)
    have "y \<notin> set (taken (fst (drain_walk rest s)))"
      using Cons.prems None by (intro not_taken_walk)
    then show ?thesis using ok None same by (simp add: drain_walk_Cons)
  next
    case (Some a)
    then show ?thesis using ok by (simp add: drain_walk_Cons)
  qed
qed

lemma queue_update_queue [simp]:
  "queue (queue_update qn f s) qn' = (if qn' = qn then f (queue s qn) else queue s qn')"
  by (cases qn; cases qn') simp_all

lemma queue_update_twice [simp]:
  "queue_update qn f (queue_update qn g s) = queue_update qn (\<lambda>q. f (g q)) s"
  by (cases qn) simp_all

lemma queue_update_const:
  "queue s qn = q \<Longrightarrow> queue_update qn (\<lambda>_. q) s = s"
  by (cases qn) auto

lemma remove_from_queue_trace:
  assumes "trace_ok tr" and "set (taken tr) \<inter> set pre = {}"
    and "queue s qn = pre @ map fst tr"
  shows "remove_from_queue qn (taken tr) s = (Inr (), queue_update qn (\<lambda>_. pre @ kept tr) s)"
  using assms
proof (induction tr arbitrary: pre s rule: taken.induct)
  case 1
  then show ?case by (simp add: queue_update_const)
next
  case (2 tid tr)
  have "remove_from_queue qn (taken tr) s =
          (Inr (), queue_update qn (\<lambda>_. (pre @ [tid]) @ kept tr) s)"
    using "2.prems" by (intro "2.IH") auto
  then show ?case by simp
next
  case (3 tid a tr)
  have notin: "tid \<notin> set pre" using "3.prems"(2) by auto
  let ?s1 = "queue_update qn (remove1 tid) s"
  have q1: "queue ?s1 qn = pre @ map fst tr"
    using "3.prems"(3) notin by (simp add: remove1_append)
  have "remove_from_queue qn (taken tr) ?s1 =
          (Inr (), queue_update qn (\<lambda>_. pre @ kept tr) ?s1)"
    using "3.prems" q1 by (intro "3.IH") auto
  moreover have "tid \<in> set (queue s qn)" using "3.prems"(3) by simp
  ultimately show ?case by simp
qed

lemma newly_append: "newly (xs @ ys) = newly xs @ newly ys"
  by (induction xs rule: newly.induct) simp_all

lemma kept_subset: "set (kept tr) \<subseteq> fst ` set tr"
  by (induction tr rule: kept.induct) auto

lemma agent_tickets_queue_update [simp]:
  "agent_tickets (queue_update qn f s) = agent_tickets s"
  by (cases qn) simp_all

lemma tickets_queue_update [simp]: "tickets (queue_update qn f s) = tickets s"
  by (cases qn) simp_all

lemma wf_agents_queue_update [simp]: "wf_agents (queue_update qn f s) = wf_agents s"
  by (simp add: wf_agents_def)

lemma drain_tier_eq:
  "drain_tier qn s =
     (fst (drain_walk (queue s qn) s),
      queue_update qn (\<lambda>_. kept (fst (drain_walk (queue s qn) s)))
        (snd (drain_walk (queue s qn) s)))"
  by (simp add: drain_tier_def case_prod_beta)

lemma drain_spec_eq:
  "drain_spec s =
     (fst (drain_tier High s) @ fst (drain_tier Medium (snd (drain_tier High s))) @
        fst (drain_tier Low (snd (drain_tier Medium (snd (drain_tier High s))))),
      snd (drain_tier Low (snd (drain_tier Medium (snd (drain_tier High s))))))"
  by (simp add: drain_spec_def case_prod_beta)

lemma drain_tier_wf: "wf_agents s \<Longrightarrow> wf_agents (snd (drain_tier qn s))"
  by (simp add: drain_tier_eq drain_walk_wf)

lemma drain_tier_dom:
  "wf_agents s \<Longrightarrow> dom (tickets s) \<subseteq> dom (tickets (snd (drain_tier qn s)))"
  using drain_walk_dom [of s "queue s qn"]
  by (simp add: drain_tier_eq)

lemma drain_tier_queue:
  "wf_agents s \<Longrightarrow>
   queue (snd (drain_tier qn s)) qn' =
     (if qn' = qn then kept (fst (drain_tier qn s)) else queue s qn')"
  using drain_walk_queue [of s "queue s qn" qn']
  by (simp add: drain_tier_eq)

lemma map_fst_drain_tier: "map fst (fst (drain_tier qn s)) = queue s qn"
  using map_fst_drain_walk [of "queue s qn" s]
  by (simp add: drain_tier_eq)

lemma drain_tier_queued_known:
  assumes "wf_agents s" and "queued_known s"
  shows "queued_known (snd (drain_tier qn s))"
  unfolding queued_known_def
proof
  fix qn'
  have "set (queue (snd (drain_tier qn s)) qn') \<subseteq> set (queue s qn')"
    using kept_subset [of "fst (drain_tier qn s)"] map_fst_drain_tier [of qn s]
    by (auto simp: drain_tier_queue [OF assms(1)] simp flip: set_map)
  also have "\<dots> \<subseteq> dom (tickets s)" using assms(2) by (simp add: queued_known_def)
  also note drain_tier_dom [OF assms(1)]
  finally show "set (queue (snd (drain_tier qn s)) qn') \<subseteq> dom (tickets (snd (drain_tier qn s)))" .
qed

lemma process_queue_list_tier:
  assumes "wf_agents s" and "queued_known s"
  shows "process_queue_list (qn # qns) s new =
           process_queue_list qns (snd (drain_tier qn s)) (new @ newly (fst (drain_tier qn s)))"
proof -
  let ?w = "drain_walk (queue s qn) s"
  have q: "set (queue s qn) \<subseteq> dom (tickets s)"
    using assms(2) by (simp add: queued_known_def)
  have a: "assign_from_queue (queue s qn) s [] new =
             (Inr (taken (fst ?w), new @ newly (fst ?w)), snd ?w)"
    using assign_from_queue_walk [OF assms(1) q, of "[]" new] by simp
  have "queue (snd ?w) qn = [] @ map fst (fst ?w)"
    by (simp add: drain_walk_queue [OF assms(1)] map_fst_drain_walk)
  then have r: "remove_from_queue qn (taken (fst ?w)) (snd ?w) =
             (Inr (), queue_update qn (\<lambda>_. [] @ kept (fst ?w)) (snd ?w))"
    by (intro remove_from_queue_trace trace_ok_walk assms(1)) simp_all
  show ?thesis
    by (simp add: a r drain_tier_eq)
qed

lemma process_queues_drain_spec:
  assumes "wf_agents s" and "queued_known s"
  shows "process_queues s = (Inr (newly (fst (drain_spec s))), snd (drain_spec s))"
proof -
  let ?s1 = "snd (drain_tier High s)"
  let ?s2 = "snd (drain_tier Medium ?s1)"
  have wf1: "wf_agents ?s1" and qk1: "queued_known ?s1"
    using assms by (simp_all add: drain_tier_wf drain_tier_queued_known)
  have wf2: "wf_agents ?s2" and qk2: "queued_known ?s2"
    using wf1 qk1 by (simp_all add: drain_tier_wf drain_tier_queued_known)
  show ?thesis
    unfolding process_queues_def
    by (simp add: process_queue_list_tier assms wf1 qk1 wf2 qk2 drain_spec_eq
        newly_append del: process_queue_list.simps(2))
qed

subsection \<open>Invariants through the drain\<close>

lemma assigned_queue_update:
  "assigned (queue_update qn f s) tid t a = queue_update qn f (assigned s tid t a)"
  by (cases qn) (simp_all add: assigned_def)

lemma is_agent_available_cong:
  "agent_tickets s' = agent_tickets s \<Longrightarrow> is_agent_available s' = is_agent_available s"
  by (rule ext) (simp add: is_agent_available_def get_agent_load_def)

lemma find_available_agent_cong:
  assumes "agent_tickets s' = agent_tickets s"
  shows "find_available_agent s' p t = find_available_agent s p t"
  unfolding find_available_agent_def is_agent_available_cong [OF assms] assms
  by (rule refl)

lemma is_agent_available_queue_update [simp]:
  "is_agent_available (queue_update qn f s) = is_agent_available s"
  by (rule is_agent_available_cong) simp

lemma find_available_agent_queue_update [simp]:
  "find_available_agent (queue_update qn f s) p t = find_available_agent s p t"
  by (rule find_available_agent_cong) simp

lemma drain_walk_rule:
  assumes step: "\<And>s pre tid rest t a.
      \<lbrakk>P s; wf_agents s; queue s qn = pre @ tid # rest; tickets s tid = Some t;
       find_available_agent s (priority t) (ticket_type t) = Some a;
       a \<in> set agent_names; is_agent_available s a\<rbrakk>
      \<Longrightarrow> P (queue_update qn (\<lambda>_. pre @ rest) (assigned s tid t a))"
    and "wf_agents s" and "P (queue_update qn (\<lambda>_. pre @ q) s)"
  shows "P (queue_update qn (\<lambda>_. pre @ kept (fst (drain_walk q s))) (snd (drain_walk q s)))"
  using assms(2,3)
proof (induction q arbitrary: s pre)
  case Nil
  then show ?case by simp
next
  case (Cons tid rest)
  have "wf_agents s" by fact
  then show ?case
  proof (cases rule: visit_cases [where tid = tid])
    case stay
    have "P (queue_update qn (\<lambda>_. (pre @ [tid]) @ kept (fst (drain_walk rest s)))
              (snd (drain_walk rest s)))"
      using Cons.prems by (intro Cons.IH) simp_all
    then show ?thesis by (simp add: stay drain_walk_Cons)
  next
    case (move t a)
    let ?s0 = "queue_update qn (\<lambda>_. pre @ tid # rest) s"
    have "P (queue_update qn (\<lambda>_. pre @ rest) (assigned ?s0 tid t a))"
      using Cons.prems move by (intro step) simp_all
    then have "P (queue_update qn (\<lambda>_. pre @ rest) (assigned s tid t a))"
      by (simp add: assigned_queue_update)
    moreover have "wf_agents (assigned s tid t a)"
      using Cons.prems(1) move(3) by (rule wf_agents_assigned)
    ultimately have "P (queue_update qn (\<lambda>_. pre @ kept (fst (drain_walk rest (assigned s tid t a))))
              (snd (drain_walk rest (assigned s tid t a))))"
      by (intro Cons.IH)
    then show ?thesis by (simp add: move drain_walk_Cons)
  qed
qed

lemma drain_tier_rule:
  assumes step: "\<And>s pre tid rest t a.
      \<lbrakk>P s; wf_agents s; queue s qn = pre @ tid # rest; tickets s tid = Some t;
       find_available_agent s (priority t) (ticket_type t) = Some a;
       a \<in> set agent_names; is_agent_available s a\<rbrakk>
      \<Longrightarrow> P (queue_update qn (\<lambda>_. pre @ rest) (assigned s tid t a))"
    and "wf_agents s" and "P s"
  shows "P (snd (drain_tier qn s))"
proof -
  have "P (queue_update qn (\<lambda>_. [] @ queue s qn) s)"
    using assms(3) by (simp add: queue_update_const)
  have "P (queue_update qn (\<lambda>_. [] @ kept (fst (drain_walk (queue s qn) s)))
              (snd (drain_walk (queue s qn) s)))"
  proof (rule drain_walk_rule [where P = P and qn = qn and pre = "[]"], goal_cases)
    case 1
    then show ?case by (rule step)
  next
    case 2
    show ?case by fact
  next
    case 3
    show ?case by fact
  qed
  then show ?thesis by (simp add: drain_tier_eq)
qed

lemma drain_spec_rule:
  assumes step: "\<And>s qn pre tid rest t a.
      \<lbrakk>P s; wf_agents s; queue s qn = pre @ tid # rest; tickets s tid = Some t;
       find_available_agent s (priority t) (ticket_type t) = Some a;
       a \<in> set agent_names; is_agent_available s a\<rbrakk>
      \<Longrightarrow> P (queue_update qn (\<lambda>_. pre @ rest) (assigned s tid t a))"
    and "wf_agents s" and "P s"
  shows "P (snd (drain_spec s))"
proof -
  let ?s1 = "snd (drain_tier High s)"
  let ?s2 = "snd (drain_tier Medium ?s1)"
  have 1: "P ?s1" by (rule drain_tier_rule [where P = P, OF step assms(2,3)])
  have w1: "wf_agents ?s1" using assms(2) by (rule drain_tier_wf)
  have 2: "P ?s2" by (rule drain_tier_rule [where P = P, OF step w1 1])
  have w2: "wf_agents ?s2" using w1 by (rule drain_tier_wf)
  have "P (snd (drain_tier Low ?s2))" by (rule drain_tier_rule [where P = P, OF step w2 2])
  then show ?thesis by (simp add: drain_spec_eq)
qed

lemma distinct_agent_names: "distinct agent_names"
  by (simp add: agent_names_def)

lemma wf_agents_distinct: "wf_agents s \<Longrightarrow> distinct (map fst (agent_tickets s))"
  by (simp add: wf_agents_def distinct_agent_names)

lemma workload_in_held:
  assumes "wf_agents s" and "a \<in> set agent_names"
  shows "set (workload s a) \<subseteq> set (held s)"
proof -
  have "map_of (agent_tickets s) a = Some (workload s a)"
    using assms by (rule wf_agents_lookup)
  then have "(a, workload s a) \<in> set (agent_tickets s)"
    by (rule map_of_SomeD)
  then show ?thesis by (force simp: held_def)
qed

lemma set_held_update:
  "map_of al a = Some l \<Longrightarrow>
   set (concat (map snd (AList.update a l' al))) \<subseteq> set (concat (map snd al)) \<union> set l'"
  by (induction al) (auto split: if_splits)

lemma find_available_agent_high:
  assumes "find_available_agent s p t = Some a" and "lower p = ''high''"
  shows "map_of TYPE_TO_PRIMARY_AGENT (lower t) = Some a \<and> is_agent_available s a"
  using assms
  by (auto simp: find_available_agent_def Let_def split: if_splits option.splits)

lemma held_queue_update [simp]: "held (queue_update qn f s) = held s"
  by (simp add: held_def)

lemma queued_assigned [simp]: "queued (assigned s tid t a) = queued s"
  by (simp add: queued_def assigned_def)

lemma held_assigned:
  assumes "wf_agents s" and "a \<in> set agent_names"
  shows "set (held (assigned s tid t a)) \<subseteq> set (held s) \<union> {tid}"
proof -
  have l: "map_of (agent_tickets s) a = Some (workload s a)"
    using assms by (rule wf_agents_lookup)
  have "set (held (assigned s tid t a)) \<subseteq> set (held s) \<union> set (workload s a @ [tid])"
    using set_held_update [OF l, of "workload s a @ [tid]"]
    by (simp add: held_def assigned_def)
  then show ?thesis using workload_in_held [OF assms] by auto
qed

lemma slots_queue_update:
  "set (f (queue s qn)) \<subseteq> set (queue s qn) \<Longrightarrow>
   set (slots (queue_update qn f s)) \<subseteq> set (slots s)"
  by (cases qn) (auto simp: slots_def queued_def held_def)

lemma base_inv_queue_update:
  assumes "base_inv s" and "set (f (queue s qn)) \<subseteq> set (queue s qn)"
  shows "base_inv (queue_update qn f s)"
  using assms(1) slots_queue_update [of f s qn, OF assms(2)]
  by (auto simp: base_inv_def)

lemma base_inv_assigned:
  assumes "base_inv s"
    and "priority t \<in> set PRIORITY_LEVELS" and "ticket_type t \<in> set TICKET_TYPES"
    and "status t \<in> {STATUS_OPEN, STATUS_PENDING, STATUS_CLOSED}"
    and f: "find_available_agent s (priority t) (ticket_type t) = Some a"
  shows "base_inv (assigned s tid t a)"
proof -
  have wf: "wf_agents s" using assms(1) by (simp add: base_inv_def)
  have a: "a \<in> set agent_names" "is_agent_available s a"
    using find_available_agent_Some [OF wf f] by simp_all
  have l: "map_of (agent_tickets s) a = Some (workload s a)"
    using wf a(1) by (rule wf_agents_lookup)
  have 1: "wf_agents (assigned s tid t a)" using wf a(1) by (rule wf_agents_assigned)
  have "set (slots (assigned s tid t a)) \<subseteq> set (slots s) \<union> {tid}"
    using held_assigned [OF wf a(1), of tid t] by (auto simp: slots_def)
  then have 2: "set (slots (assigned s tid t a)) \<subseteq> dom (tickets (assigned s tid t a))"
    using assms(1) by (auto simp: base_inv_def tickets_assigned)
  have 3: "length (workload (assigned s tid t a) b) \<le> MAX_TICKETS_PER_AGENT" for b
    using assms(1) a(2)
    by (auto simp: workload_assigned base_inv_def is_agent_available_def get_agent_load_def)
  have "ticket_ok (t\<lparr>assigned_agent := Some a, assigned_agent_id := map_of AGENT_IDS a,
                     status := STATUS_PENDING\<rparr>)"
    using assms(2,3) a(1) find_available_agent_high [OF f]
    by (auto simp: ticket_ok_def lower_levels lower_types)
  then have 4: "tickets (assigned s tid t a) x = Some t' \<Longrightarrow> ticket_ok t'" for x t'
    using assms(1) by (auto simp: tickets_assigned base_inv_def split: if_splits)
  show ?thesis unfolding base_inv_def using 1 2 3 4 by blast
qed

lemma find_available_agent_tickets [simp]:
  "find_available_agent (s\<lparr>tickets := m\<rparr>) p t = find_available_agent s p t"
  by (rule find_available_agent_cong) simp

lemma wf_agents_tickets [simp]: "wf_agents (s\<lparr>tickets := m\<rparr>) = wf_agents s"
  by (simp add: wf_agents_def)

lemma assigned_tickets [simp]:
  "assigned (s\<lparr>tickets := (tickets s)(tid \<mapsto> t')\<rparr>) tid t a = assigned s tid t a"
  by (simp add: assigned_def)

lemma create_ticket_state:
  assumes "wf_agents s"
  shows "snd (create_ticket s tid p0 t0 now) = s \<or>
         (\<exists>pred. lower p0 \<in> set PRIORITY_LEVELS \<and> lower t0 \<in> set TICKET_TYPES \<and>
            snd (create_ticket s tid p0 t0 now) =
              enroute s tid (new_ticket tid (lower p0) (lower t0) now pred))"
proof (cases "lower p0 \<in> set PRIORITY_LEVELS \<and> lower t0 \<in> set TICKET_TYPES")
  case False
  then show ?thesis by (auto simp: create_ticket_def Let_def)
next
  case True
  let ?pr = "if model_loaded s then map_sum (\<lambda>e. e) Some (predict_agent s (lower p0) (lower t0))
             else Inr None"
  show ?thesis
  proof (cases ?pr)
    case (Inl e)
    then show ?thesis using True by (simp add: create_ticket_def Let_def)
  next
    case (Inr pred)
    let ?t = "new_ticket tid (lower p0) (lower t0) now pred"
    have pt: "priority ?t = lower p0" "ticket_type ?t = lower t0"
      by (simp_all add: new_ticket_def)
    have "snd (create_ticket s tid p0 t0 now) = enroute s tid ?t"
    proof (cases "find_available_agent s (lower p0) (lower t0)")
      case None
      then show ?thesis
        using True Inr
        by (simp add: create_ticket_def Let_def enroute_def pt)
           (simp add: new_ticket_def)
    next
      case (Some a)
      have a: "a \<in> set agent_names"
        using find_available_agent_Some [OF assms Some] by simp
      have ne: "a \<noteq> []" using a by (rule agent_names_nonempty)
      have "assign_ticket (s\<lparr>tickets := (tickets s)(tid \<mapsto> ?t)\<rparr>) tid ?t a =
              (Inr (dict_get AGENT_IDS a []), assigned s tid ?t a)"
        using assign_ticket_assigned [of "s\<lparr>tickets := (tickets s)(tid \<mapsto> ?t)\<rparr>" a tid ?t]
          assms a by simp
      then show ?thesis
        using True Inr Some ne
        by (simp add: create_ticket_def Let_def enroute_def pt)
           (simp add: new_ticket_def)
    qed
    then show ?thesis using True by blast
  qed
qed

lemma base_inv_wf: "base_inv s \<Longrightarrow> wf_agents s"
  by (simp add: base_inv_def)

lemma base_inv_queued_known: "base_inv s \<Longrightarrow> queued_known s"
  unfolding base_inv_def queued_known_def slots_def queued_def
proof
  fix qn
  assume "wf_agents s \<and>
    set ((queue s High @ queue s Medium @ queue s Low) @ held s) \<subseteq> dom (tickets s) \<and>
    (\<forall>a. length (workload s a) \<le> MAX_TICKETS_PER_AGENT) \<and>
    (\<forall>tid t. tickets s tid = Some t \<longrightarrow> ticket_ok t)"
  then show "set (queue s qn) \<subseteq> dom (tickets s)"
    by (cases qn) auto
qed

lemma base_inv_store:
  assumes "base_inv s" and "ticket_ok t"
  shows "base_inv (s\<lparr>tickets := (tickets s)(tid \<mapsto> t)\<rparr>)"
  using assms by (auto simp: base_inv_def slots_def queued_def held_def)

lemma ticket_ok_new:
  "p \<in> set PRIORITY_LEVELS \<Longrightarrow> t \<in> set TICKET_TYPES \<Longrightarrow> ticket_ok (new_ticket tid p t now pred)"
  by (simp add: ticket_ok_def new_ticket_def)

lemma slots_enqueue:
  "set (slots (queue_update qn (\<lambda>q. q @ [tid]) s)) = set (slots s) \<union> {tid}"
  by (cases qn) (auto simp: slots_def queued_def held_def)

lemma base_inv_enqueue:
  assumes "base_inv s" and "tid \<in> dom (tickets s)"
  shows "base_inv (queue_update qn (\<lambda>q. q @ [tid]) s)"
  using assms unfolding base_inv_def slots_enqueue by auto

lemma base_inv_enroute:
  assumes "base_inv s" and "ticket_ok t"
  shows "base_inv (enroute s tid t)"
proof (cases "find_available_agent s (priority t) (ticket_type t)")
  case None
  have "base_inv (s\<lparr>tickets := (tickets s)(tid \<mapsto> t)\<rparr>)"
    using assms by (rule base_inv_store)
  then have "base_inv (queue_update (get_queue_for_priority (priority t)) (\<lambda>q. q @ [tid])
               (s\<lparr>tickets := (tickets s)(tid \<mapsto> t)\<rparr>))"
    by (rule base_inv_enqueue) simp
  then show ?thesis using None by (simp add: enroute_def)
next
  case (Some a)
  then show ?thesis
    using assms by (auto simp: enroute_def ticket_ok_def intro!: base_inv_assigned)
qed

lemma base_inv_create:
  assumes "base_inv s"
  shows "base_inv (snd (create_ticket s tid p0 t0 now))"
  using create_ticket_state [OF base_inv_wf [OF assms], of tid p0 t0 now] assms
  by (auto simp: base_inv_enroute ticket_ok_new)

subsection \<open>Release\<close>

lemma release_ticket_released:
  assumes "wf_agents s" and "\<And>a. assigned_agent t = Some a \<Longrightarrow> a \<in> set agent_names"
  shows "release_ticket s tid t = (Inr (), released s tid t)"
proof (cases "assigned_agent t")
  case None
  then show ?thesis by (simp add: release_ticket_def released_def Let_def)
next
  case (Some a)
  then have a: "a \<in> set agent_names" by (rule assms(2))
  have ne: "a \<noteq> []" using a by (rule agent_names_nonempty)
  obtain l where l: "map_of (agent_tickets s) a = Some l"
    using wf_agents_lookup [OF assms(1) a] by blast
  have w: "workload s a = l" by (simp add: dict_get_def l)
  show ?thesis
  proof (cases "tid \<in> set l")
    case True
    then show ?thesis
      using Some ne l w by (simp add: release_ticket_def released_def Let_def)
  next
    case False
    then have "AList.update a (remove1 tid l) (agent_tickets s) = agent_tickets s"
      using l by (simp add: remove1_idem update_triv)
    then show ?thesis
      using Some ne l False w by (simp add: release_ticket_def released_def Let_def)
  qed
qed

lemma workload_released:
  assumes "wf_agents s" and "\<And>a. assigned_agent t = Some a \<Longrightarrow> a \<in> set agent_names"
  shows "workload (released s tid t) b =
           (if assigned_agent t = Some b then remove1 tid (workload s b) else workload s b)"
  by (cases "assigned_agent t") (auto simp: released_def Let_def dict_get_def update_conv')

lemma wf_agents_released:
  assumes "wf_agents s" and "\<And>a. assigned_agent t = Some a \<Longrightarrow> a \<in> set agent_names"
  shows "wf_agents (released s tid t)"
proof (cases "assigned_agent t")
  case None
  then show ?thesis using assms(1) by (simp add: released_def Let_def)
next
  case (Some a)
  have "a \<in> set agent_names" using Some by (rule assms(2))
  with assms(1) have "a \<in> fst ` set (agent_tickets s)"
    by (rule wf_agents_key)
  then show ?thesis
    using assms(1) Some \<open>a \<in> set agent_names\<close>
    by (simp add: released_def Let_def wf_agents_def update_keys)
qed

lemma set_held_update_remove:
  "map_of al a = Some l \<Longrightarrow> set l' \<subseteq> set l \<Longrightarrow>
   set (concat (map snd (AList.update a l' al))) \<subseteq> set (concat (map snd al))"
  by (induction al) (auto split: if_splits)

lemma held_released:
  assumes "wf_agents s" and "\<And>a. assigned_agent t = Some a \<Longrightarrow> a \<in> set agent_names"
  shows "set (held (released s tid t)) \<subseteq> set (held s)"
proof (cases "assigned_agent t")
  case None
  then show ?thesis by (simp add: released_def Let_def held_def)
next
  case (Some a)
  have "a \<in> set agent_names" using Some by (rule assms(2))
  with assms(1) have "map_of (agent_tickets s) a = Some (workload s a)"
    by (rule wf_agents_lookup)
  moreover have "set (remove1 tid (workload s a)) \<subseteq> set (workload s a)"
    by (rule set_remove1_subset)
  ultimately
  have "set (concat (map snd (AList.update a (remove1 tid (workload s a)) (agent_tickets s))))
          \<subseteq> set (concat (map snd (agent_tickets s)))"
    by (rule set_held_update_remove)
  then show ?thesis using Some by (simp add: released_def Let_def held_def)
qed

lemma queue_released [simp]: "queue (released s tid t) qn = queue s qn"
  by (cases qn; cases "assigned_agent t") (simp_all add: released_def Let_def)

lemma queued_released [simp]: "queued (released s tid t) = queued s"
  by (cases "assigned_agent t") (simp_all add: released_def Let_def queued_def)

lemma tickets_released:
  "tickets (released s tid t) = (tickets s)(tid \<mapsto> t\<lparr>status := STATUS_CLOSED\<rparr>)"
  by (cases "assigned_agent t") (simp_all add: released_def Let_def)

lemma base_inv_released:
  assumes "base_inv s" and "tickets s tid = Some t"
  shows "base_inv (released s tid t)"
proof -
  have wf: "wf_agents s" using assms(1) by (rule base_inv_wf)
  have ok: "ticket_ok t" using assms by (auto simp: base_inv_def)
  then have known: "\<And>a. assigned_agent t = Some a \<Longrightarrow> a \<in> set agent_names"
    by (simp add: ticket_ok_def)
  have 1: "wf_agents (released s tid t)" using wf known by (rule wf_agents_released)
  have "set (held (released s tid t)) \<subseteq> set (held s)"
    using wf known by (rule held_released)
  then have "set (slots (released s tid t)) \<subseteq> set (slots s)"
    by (auto simp: slots_def)
  then have 2: "set (slots (released s tid t)) \<subseteq> dom (tickets (released s tid t))"
    using assms(1) by (auto simp: base_inv_def tickets_released)
  have 3: "length (workload (released s tid t) b) \<le> MAX_TICKETS_PER_AGENT" for b
  proof -
    have "length (remove1 tid (workload s b)) \<le> length (workload s b)"
      by (simp add: length_remove1)
    moreover have "workload (released s tid t) b =
        (if assigned_agent t = Some b then remove1 tid (workload s b) else workload s b)"
      using wf known by (rule workload_released)
    moreover have "length (workload s b) \<le> MAX_TICKETS_PER_AGENT"
      using assms(1) by (simp add: base_inv_def)
    ultimately show ?thesis by (simp split: if_splits)
  qed
  have "ticket_ok (t\<lparr>status := STATUS_CLOSED\<rparr>)"
    using ok by (simp add: ticket_ok_def)
  then have 4: "tickets (released s tid t) x = Some t' \<Longrightarrow> ticket_ok t'" for x t'
    using assms(1) by (auto simp: tickets_released base_inv_def split: if_splits)
  show ?thesis unfolding base_inv_def using 1 2 3 4 by blast
qed

subsection \<open>Drain\<close>

lemma base_inv_move:
  assumes "base_inv s" and "queue s qn = pre @ tid # rest" and "tickets s tid = Some t"
    and "find_available_agent s (priority t) (ticket_type t) = Some a"
  shows "base_inv (queue_update qn (\<lambda>_. pre @ rest) (assigned s tid t a))"
proof -
  have "ticket_ok t" using assms(1,3) by (auto simp: base_inv_def)
  then have "base_inv (assigned s tid t a)"
    using assms(1,4) by (auto simp: ticket_ok_def intro!: base_inv_assigned)
  moreover have "set (pre @ rest) \<subseteq> set (queue (assigned s tid t a) qn)"
    using assms(2) by (auto simp: queue_assigned)
  ultimately show ?thesis by (rule base_inv_queue_update)
qed

lemma base_inv_drain_spec:
  assumes "base_inv s"
  shows "base_inv (snd (drain_spec s))"
proof (rule drain_spec_rule [where P = base_inv], goal_cases)
  case (1 s qn pre tid rest t a)
  then show ?case by (intro base_inv_move)
next
  case 2
  show ?case using assms by (rule base_inv_wf)
next
  case 3
  show ?case by fact
qed

lemma process_queues_base_inv:
  assumes "base_inv s"
  shows "process_queues s = (Inr (newly (fst (drain_spec s))), snd (drain_spec s))"
  using assms by (intro process_queues_drain_spec base_inv_wf base_inv_queued_known)

lemma close_ticket_base_inv:
  assumes "base_inv s" and "tickets s tid = Some t" and "status t \<noteq> STATUS_CLOSED"
  shows "close_ticket s tid =
           (Inr (Closed tid (assigned_agent t) (newly (fst (drain_spec (released s tid t))))),
            snd (drain_spec (released s tid t)))"
proof -
  have wf: "wf_agents s" using assms(1) by (rule base_inv_wf)
  have "ticket_ok t" using assms by (auto simp: base_inv_def)
  then have known: "\<And>a. assigned_agent t = Some a \<Longrightarrow> a \<in> set agent_names"
    by (simp add: ticket_ok_def)
  have r: "release_ticket s tid t = (Inr (), released s tid t)"
    using wf known by (rule release_ticket_released)
  have "base_inv (released s tid t)" using assms(1,2) by (rule base_inv_released)
  then show ?thesis
    using assms(2,3) by (simp add: close_ticket_def r process_queues_base_inv)
qed

lemma base_inv_close:
  assumes "base_inv s"
  shows "base_inv (snd (close_ticket s tid))"
proof (cases "tickets s tid")
  case None
  then show ?thesis using assms by (simp add: close_ticket_def)
next
  case (Some t)
  show ?thesis
  proof (cases "status t = STATUS_CLOSED")
    case True
    then show ?thesis using assms Some by (simp add: close_ticket_def)
  next
    case False
    then show ?thesis
      using assms Some
      by (simp add: close_ticket_base_inv base_inv_drain_spec base_inv_released)
  qed
qed

lemma base_inv_step: "base_inv s \<Longrightarrow> base_inv (step s x)"
  by (cases x)
    (simp_all add: base_inv_create base_inv_close process_queues_base_inv base_inv_drain_spec)

lemma base_inv_run: "base_inv s \<Longrightarrow> base_inv (run s xs)"
  by (induction xs arbitrary: s) (simp_all add: base_inv_step)

lemma base_inv_init: "base_inv (init m)"
  by (simp add: base_inv_def init_def wf_agents_def agent_names_def slots_def queued_def
      held_def dict_get_def)

lemma lower_high: "lower ''high'' = ''high''"
  by code_simp


lemma drain_spec_queues:
  assumes "wf_agents s"
  shows "queue (snd (drain_spec s)) High = kept (fst (drain_tier High s))"
    and "queue (snd (drain_spec s)) Medium =
           kept (fst (drain_tier Medium (snd (drain_tier High s))))"
    and "queue (snd (drain_spec s)) Low =
           kept (fst (drain_tier Low (snd (drain_tier Medium (snd (drain_tier High s))))))"
proof -
  let ?s1 = "snd (drain_tier High s)"
  let ?s2 = "snd (drain_tier Medium ?s1)"
  have w1: "wf_agents ?s1" using assms by (rule drain_tier_wf)
  have w2: "wf_agents ?s2" using w1 by (rule drain_tier_wf)
  show "queue (snd (drain_spec s)) High = kept (fst (drain_tier High s))"
    by (simp add: drain_spec_eq drain_tier_queue [OF w2] drain_tier_queue [OF w1]
        drain_tier_queue [OF assms] del: queue.simps)
  show "queue (snd (drain_spec s)) Medium = kept (fst (drain_tier Medium ?s1))"
    by (simp add: drain_spec_eq drain_tier_queue [OF w2] drain_tier_queue [OF w1]
        del: queue.simps)
  show "queue (snd (drain_spec s)) Low = kept (fst (drain_tier Low ?s2))"
    by (simp add: drain_spec_eq drain_tier_queue [OF w2] del: queue.simps)
qed


subsection \<open>What a drain appends to the agents' lists\<close>

lemma drained_to_simps [simp]:
  "drained_to b [] = []"
  "drained_to b ((tid, None) # tr) = drained_to b tr"
  "drained_to b ((tid, Some a) # tr) = (if a = b then tid # drained_to b tr else drained_to b tr)"
  by (simp_all add: drained_to_def)

lemma drained_to_append: "drained_to b (xs @ ys) = drained_to b xs @ drained_to b ys"
  by (simp add: drained_to_def newly_append)

lemma workload_drain_walk:
  assumes "wf_agents s"
  shows "workload (snd (drain_walk q s)) b = workload s b @ drained_to b (fst (drain_walk q s))"
  using assms
proof (induction q arbitrary: s)
  case Nil
  then show ?case by simp
next
  case (Cons tid rest)
  have "wf_agents s" by fact
  then show ?case
  proof (cases rule: visit_cases [where tid = tid])
    case stay
    then show ?thesis using Cons by (simp add: drain_walk_Cons)
  next
    case (move t a)
    have "wf_agents (assigned s tid t a)"
      using Cons.prems move(3) by (rule wf_agents_assigned)
    from Cons.IH [OF this] show ?thesis
      by (simp add: drain_walk_Cons move workload_assigned)
  qed
qed

lemma workload_drain_tier:
  assumes "wf_agents s"
  shows "workload (snd (drain_tier qn s)) b = workload s b @ drained_to b (fst (drain_tier qn s))"
  using workload_drain_walk [OF assms, of "queue s qn" b]
  by (simp add: drain_tier_eq)

lemma workload_drain_spec:
  assumes "wf_agents s"
  shows "workload (snd (drain_spec s)) b = workload s b @ drained_to b (fst (drain_spec s))"
proof -
  let ?s1 = "snd (drain_tier High s)"
  let ?s2 = "snd (drain_tier Medium ?s1)"
  have w1: "wf_agents ?s1" using assms by (rule drain_tier_wf)
  have w2: "wf_agents ?s2" using w1 by (rule drain_tier_wf)
  show ?thesis
    by (simp add: drain_spec_eq drained_to_append workload_drain_tier [OF assms]
        workload_drain_tier [OF w1] workload_drain_tier [OF w2])
qed

lemma queued_known_released:
  assumes "queued_known s"
  shows "queued_known (released s tid t)"
  using assms by (auto simp: queued_known_def tickets_released)

lemma strip_advisory_updates [simp]:
  "strip_advisory (t\<lparr>assigned_agent := x\<rparr>) = (strip_advisory t)\<lparr>assigned_agent := x\<rparr>"
  "strip_advisory (t\<lparr>assigned_agent_id := y\<rparr>) = (strip_advisory t)\<lparr>assigned_agent_id := y\<rparr>"
  "strip_advisory (t\<lparr>status := z\<rparr>) = (strip_advisory t)\<lparr>status := z\<rparr>"
  by (simp_all add: strip_advisory_def)

lemma strip_advisory_fields [simp]:
  "assigned_agent (strip_advisory t) = assigned_agent t"
  "assigned_agent_id (strip_advisory t) = assigned_agent_id t"
  "status (strip_advisory t) = status t"
  "priority (strip_advisory t) = priority t"
  "ticket_type (strip_advisory t) = ticket_type t"
  by (simp_all add: strip_advisory_def)

lemma routing_state_store:
  assumes "routing_state s1 = routing_state s2" and "strip_advisory t1 = strip_advisory t2"
  shows "routing_state (s1\<lparr>tickets := (tickets s1)(tid \<mapsto> t1)\<rparr>) =
         routing_state (s2\<lparr>tickets := (tickets s2)(tid \<mapsto> t2)\<rparr>)"
  using assms by (auto simp: routing_state_def fun_eq_iff)

lemma routing_state_agents:
  assumes "routing_state s1 = routing_state s2"
  shows "routing_state (s1\<lparr>agent_tickets := al\<rparr>) = routing_state (s2\<lparr>agent_tickets := al\<rparr>)"
  using assms by (auto simp: routing_state_def)

lemma routing_state_queue_update:
  assumes "routing_state s1 = routing_state s2"
  shows "routing_state (queue_update qn f s1) = routing_state (queue_update qn f s2)"
  using assms by (cases qn) (auto simp: routing_state_def)

lemma routing_state_agent_tickets:
  "routing_state s1 = routing_state s2 \<Longrightarrow> agent_tickets s1 = agent_tickets s2"
  by (simp add: routing_state_def)

lemma assign_ticket_routing:
  assumes "routing_state s1 = routing_state s2" and "strip_advisory t1 = strip_advisory t2"
  shows "fst (assign_ticket s1 tid t1 a) = fst (assign_ticket s2 tid t2 a) \<and>
         routing_state (snd (assign_ticket s1 tid t1 a)) =
           routing_state (snd (assign_ticket s2 tid t2 a))"
proof -
  have at: "agent_tickets s1 = agent_tickets s2"
    using assms(1) by (rule routing_state_agent_tickets)
  let ?u1 = "s1\<lparr>tickets := (tickets s1)(tid \<mapsto> t1\<lparr>assigned_agent := Some a\<rparr>)\<rparr>"
  let ?u2 = "s2\<lparr>tickets := (tickets s2)(tid \<mapsto> t2\<lparr>assigned_agent := Some a\<rparr>)\<rparr>"
  have u: "routing_state ?u1 = routing_state ?u2"
    using assms by (intro routing_state_store) simp_all
  show ?thesis
  proof (cases "map_of AGENT_IDS a")
    case None
    then show ?thesis using u by (simp add: assign_ticket_def Let_def)
  next
    case (Some aid)
    let ?v1 = "s1\<lparr>tickets := (tickets s1)(tid \<mapsto>
        t1\<lparr>assigned_agent := Some a, assigned_agent_id := Some aid, status := STATUS_PENDING\<rparr>)\<rparr>"
    let ?v2 = "s2\<lparr>tickets := (tickets s2)(tid \<mapsto>
        t2\<lparr>assigned_agent := Some a, assigned_agent_id := Some aid, status := STATUS_PENDING\<rparr>)\<rparr>"
    have v: "routing_state ?v1 = routing_state ?v2"
      using assms by (intro routing_state_store) simp_all
    show ?thesis
    proof (cases "map_of (agent_tickets s2) a")
      case None
      then show ?thesis using Some v at by (simp add: assign_ticket_def Let_def)
    next
      case (Some l)
      have "routing_state (?v1\<lparr>agent_tickets := AList.update a (l @ [tid]) (agent_tickets s2)\<rparr>)
          = routing_state (?v2\<lparr>agent_tickets := AList.update a (l @ [tid]) (agent_tickets s2)\<rparr>)"
        using v by (rule routing_state_agents)
      then show ?thesis
        using Some \<open>map_of AGENT_IDS a = Some aid\<close> at
        by (simp add: assign_ticket_def Let_def)
    qed
  qed
qed

lemma slots_containers: "slots s = concat (containers s)"
  by (simp add: slots_def queued_def held_def containers_def)

lemma held_update_append:
  assumes "map_of al a = Some l" and "x \<notin> set (concat (map snd al))"
    and "distinct (concat (map snd al))"
  shows "distinct (concat (map snd (AList.update a (l @ [x]) al))) \<and>
         set (concat (map snd (AList.update a (l @ [x]) al))) = insert x (set (concat (map snd al)))"
  using assms
proof (induction al)
  case Nil
  then show ?case by simp
next
  case (Cons p al)
  show ?case
  proof (cases "fst p = a")
    case True
    then have "snd p = l" using Cons.prems(1) by (cases p) simp
    then show ?thesis using True Cons.prems by (cases p) auto
  next
    case False
    then have "map_of al a = Some l" using Cons.prems(1) by (cases p) simp
    from Cons.IH [OF this] Cons.prems False show ?thesis by (cases p) auto
  qed
qed

lemma held_update_remove:
  assumes "map_of al a = Some l" and "distinct (concat (map snd al))"
  shows "distinct (concat (map snd (AList.update a (remove1 x l) al))) \<and>
         set (concat (map snd al)) - {x} \<subseteq> set (concat (map snd (AList.update a (remove1 x l) al)))"
  using assms
proof (induction al)
  case Nil
  then show ?case by simp
next
  case (Cons p al)
  show ?case
  proof (cases "fst p = a")
    case True
    then have l: "snd p = l" using Cons.prems(1) by (cases p) simp
    have "set (remove1 x l) \<subseteq> set l" by (rule set_remove1_subset)
    moreover have "set l - {x} \<subseteq> set (remove1 x l)"
    proof
      fix y
      assume "y \<in> set l - {x}"
      then have "y \<noteq> x" "y \<in> set l" by auto
      then show "y \<in> set (remove1 x l)" by simp
    qed
    ultimately show ?thesis using True l Cons.prems(2) by (cases p) auto
  next
    case False
    then have "map_of al a = Some l" using Cons.prems(1) by (cases p) simp
    moreover have "set (concat (map snd (AList.update a (remove1 x l) al)))
        \<subseteq> set (concat (map snd al))"
      using calculation set_remove1_subset [of x l] by (intro set_held_update_remove)
    ultimately show ?thesis using Cons.IH Cons.prems(2) False by (cases p) auto
  qed
qed

lemma held_assigned_fresh:
  assumes "wf_agents s" and "a \<in> set agent_names" and "tid \<notin> set (held s)"
    and "distinct (held s)"
  shows "distinct (held (assigned s tid t a)) \<and>
         set (held (assigned s tid t a)) = insert tid (set (held s))"
proof -
  have "map_of (agent_tickets s) a = Some (workload s a)"
    using assms(1,2) by (rule wf_agents_lookup)
  from held_update_append [OF this, of tid] assms(3,4)
  show ?thesis by (simp add: held_def assigned_def)
qed

lemma held_released_distinct:
  assumes "wf_agents s" and "\<And>a. assigned_agent t = Some a \<Longrightarrow> a \<in> set agent_names"
    and "distinct (held s)"
  shows "distinct (held (released s tid t)) \<and> set (held s) - {tid} \<subseteq> set (held (released s tid t))"
proof (cases "assigned_agent t")
  case None
  then show ?thesis using assms(3) by (auto simp: released_def Let_def held_def)
next
  case (Some a)
  have "a \<in> set agent_names" using Some by (rule assms(2))
  with assms(1) have "map_of (agent_tickets s) a = Some (workload s a)"
    by (rule wf_agents_lookup)
  from held_update_remove [OF this, of tid] assms(3)
  show ?thesis using Some by (simp add: released_def Let_def held_def)
qed

lemma queued_split:
  assumes "queue s qn = pre @ tid # rest"
  shows "\<exists>A B. queued s = A @ tid # B \<and>
           queued (queue_update qn (\<lambda>_. pre @ rest) (assigned s tid t a)) = A @ B"
proof (cases qn)
  case High
  then show ?thesis
    using assms
    by - (rule exI [where x = pre], rule exI [where x = "rest @ queue s Medium @ queue s Low"],
        simp add: queued_def assigned_def)
next
  case Medium
  then show ?thesis
    using assms
    by - (rule exI [where x = "queue s High @ pre"], rule exI [where x = "rest @ queue s Low"],
        simp add: queued_def assigned_def)
next
  case Low
  then show ?thesis
    using assms
    by - (rule exI [where x = "queue s High @ queue s Medium @ pre"], rule exI [where x = rest],
        simp add: queued_def assigned_def)
qed

lemma place_inv_move:
  assumes "place_inv s" and "wf_agents s" and "queue s qn = pre @ tid # rest"
    and "a \<in> set agent_names"
  shows "place_inv (queue_update qn (\<lambda>_. pre @ rest) (assigned s tid t a))"
proof -
  let ?s' = "queue_update qn (\<lambda>_. pre @ rest) (assigned s tid t a)"
  obtain A B where AB: "queued s = A @ tid # B" "queued ?s' = A @ B"
    using queued_split [OF assms(3)] by blast
  have d: "distinct (A @ tid # B @ held s)"
    using assms(1) AB(1) by (simp add: place_inv_def slots_def)
  then have "tid \<notin> set (held s)" "distinct (held s)" by auto
  then have h: "distinct (held (assigned s tid t a))"
    "set (held (assigned s tid t a)) = insert tid (set (held s))"
    using held_assigned_fresh [OF assms(2,4)] by auto
  have 1: "distinct (slots ?s')"
    using d h by (auto simp: slots_def AB(2))
  have 2: "tickets ?s' x = Some t' \<Longrightarrow>
      (status t' = STATUS_OPEN \<longrightarrow> x \<in> set (queued ?s')) \<and>
      (status t' = STATUS_PENDING \<longrightarrow> x \<in> set (held ?s'))" for x t'
  proof (cases "x = tid")
    case True
    assume "tickets ?s' x = Some t'"
    then show ?thesis using True h(2)
      by (auto simp: tickets_assigned STATUS_OPEN_def STATUS_PENDING_def)
  next
    case False
    assume "tickets ?s' x = Some t'"
    then have "tickets s x = Some t'" using False by (simp add: tickets_assigned)
    then have "(status t' = STATUS_OPEN \<longrightarrow> x \<in> set (queued s)) \<and>
               (status t' = STATUS_PENDING \<longrightarrow> x \<in> set (held s))"
      using assms(1) by (simp add: place_inv_def)
    then show ?thesis using False h(2) AB by auto
  qed
  show ?thesis unfolding place_inv_def using 1 2 by blast
qed

lemma held_tickets_update [simp]: "held (s\<lparr>tickets := m\<rparr>) = held s"
  by (simp add: held_def)

lemma queued_tickets_update [simp]: "queued (s\<lparr>tickets := m\<rparr>) = queued s"
  by (simp add: queued_def)

lemma place_inv_enroute:
  assumes "base_inv s" and "place_inv s" and "tid \<notin> dom (tickets s)"
    and "status t = STATUS_OPEN"
  shows "place_inv (enroute s tid t)"
proof -
  have wf: "wf_agents s" using assms(1) by (rule base_inv_wf)
  have fresh: "tid \<notin> set (queued s)" "tid \<notin> set (held s)"
    using assms(1,3) by (auto simp: base_inv_def slots_def)
  have d: "distinct (queued s @ held s)"
    using assms(2) by (simp add: place_inv_def slots_def)
  have old: "tickets s x = Some t' \<Longrightarrow>
      (status t' = STATUS_OPEN \<longrightarrow> x \<in> set (queued s)) \<and>
      (status t' = STATUS_PENDING \<longrightarrow> x \<in> set (held s))" for x t'
    using assms(2) by (simp add: place_inv_def)
  show ?thesis
  proof (cases "find_available_agent s (priority t) (ticket_type t)")
    case None
    let ?qn = "get_queue_for_priority (priority t)"
    let ?s' = "queue_update ?qn (\<lambda>q. q @ [tid]) (s\<lparr>tickets := (tickets s)(tid \<mapsto> t)\<rparr>)"
    have q: "set (queued ?s') = insert tid (set (queued s))" "distinct (queued ?s')"
      using d fresh by (cases ?qn; auto simp: queued_def)+
    have h: "held ?s' = held s" by simp
    have 1: "distinct (slots ?s')"
      using d fresh q by (auto simp: slots_def)
    have 2: "tickets ?s' x = Some t' \<Longrightarrow>
      (status t' = STATUS_OPEN \<longrightarrow> x \<in> set (queued ?s')) \<and>
      (status t' = STATUS_PENDING \<longrightarrow> x \<in> set (held ?s'))" for x t'
      using old [of x t'] assms(4) q(1) h
      by (cases "x = tid") (auto simp: STATUS_OPEN_def STATUS_PENDING_def)
    show ?thesis using None 1 2 unfolding enroute_def place_inv_def by simp
  next
    case (Some a)
    have a: "a \<in> set agent_names"
      using find_available_agent_Some [OF wf Some] by simp
    let ?s' = "assigned s tid t a"
    have h: "distinct (held ?s')" "set (held ?s') = insert tid (set (held s))"
      using held_assigned_fresh [OF wf a fresh(2)] d by auto
    have 1: "distinct (slots ?s')"
      using d fresh h by (auto simp: slots_def)
    have 2: "tickets ?s' x = Some t' \<Longrightarrow>
      (status t' = STATUS_OPEN \<longrightarrow> x \<in> set (queued ?s')) \<and>
      (status t' = STATUS_PENDING \<longrightarrow> x \<in> set (held ?s'))" for x t'
      using old [of x t'] h(2)
      by (cases "x = tid") (auto simp: tickets_assigned STATUS_OPEN_def STATUS_PENDING_def)
    show ?thesis using Some 1 2 unfolding enroute_def place_inv_def by simp
  qed
qed

lemma place_inv_released:
  assumes "base_inv s" and "place_inv s" and "tickets s tid = Some t"
  shows "place_inv (released s tid t)"
proof -
  have wf: "wf_agents s" using assms(1) by (rule base_inv_wf)
  have "ticket_ok t" using assms(1,3) by (auto simp: base_inv_def)
  then have known: "\<And>a. assigned_agent t = Some a \<Longrightarrow> a \<in> set agent_names"
    by (simp add: ticket_ok_def)
  have d: "distinct (queued s @ held s)"
    using assms(2) by (simp add: place_inv_def slots_def)
  then have "distinct (held s)" by simp
  then have h: "distinct (held (released s tid t))"
    "set (held s) - {tid} \<subseteq> set (held (released s tid t))"
    using held_released_distinct [OF wf known] by auto
  have sub: "set (held (released s tid t)) \<subseteq> set (held s)"
    using wf known by (rule held_released)
  have 1: "distinct (slots (released s tid t))"
    using d h(1) sub by (auto simp: slots_def)
  have 2: "tickets (released s tid t) x = Some t' \<Longrightarrow>
      (status t' = STATUS_OPEN \<longrightarrow> x \<in> set (queued (released s tid t))) \<and>
      (status t' = STATUS_PENDING \<longrightarrow> x \<in> set (held (released s tid t)))" for x t'
  proof (cases "x = tid")
    case True
    assume "tickets (released s tid t) x = Some t'"
    then show ?thesis using True
      by (auto simp: tickets_released STATUS_OPEN_def STATUS_PENDING_def STATUS_CLOSED_def)
  next
    case False
    assume "tickets (released s tid t) x = Some t'"
    then have "tickets s x = Some t'" using False by (simp add: tickets_released)
    then have "(status t' = STATUS_OPEN \<longrightarrow> x \<in> set (queued s)) \<and>
               (status t' = STATUS_PENDING \<longrightarrow> x \<in> set (held s))"
      using assms(2) by (simp add: place_inv_def)
    then show ?thesis using False h(2) by auto
  qed
  show ?thesis unfolding place_inv_def using 1 2 by blast
qed

lemma place_inv_drain_spec:
  assumes "base_inv s" and "place_inv s"
  shows "place_inv (snd (drain_spec s))"
proof -
  have "base_inv (snd (drain_spec s)) \<and> place_inv (snd (drain_spec s))"
  proof (rule drain_spec_rule [where P = "\<lambda>s. base_inv s \<and> place_inv s"], goal_cases)
    case (1 s qn pre tid rest t a)
    then show ?case by (auto intro: base_inv_move place_inv_move)
  next
    case 2
    show ?case using assms(1) by (rule base_inv_wf)
  next
    case 3
    show ?case using assms by simp
  qed
  then show ?thesis by simp
qed

lemma dom_drain_spec:
  assumes "wf_agents s"
  shows "dom (tickets (snd (drain_spec s))) = dom (tickets s)"
proof (rule drain_spec_rule [where P = "\<lambda>s'. dom (tickets s') = dom (tickets s)"], goal_cases)
  case (1 s' qn pre tid rest t a)
  then show ?case by (auto simp: tickets_assigned)
next
  case 2
  show ?case by fact
next
  case 3
  show ?case by simp
qed

lemma dom_enroute: "dom (tickets (enroute s tid t)) = insert tid (dom (tickets s))"
  by (cases "find_available_agent s (priority t) (ticket_type t)")
    (simp_all add: enroute_def tickets_assigned)

lemma dom_released:
  "tickets s tid = Some t \<Longrightarrow> dom (tickets (released s tid t)) = dom (tickets s)"
  by (auto simp: tickets_released)

lemma dom_step:
  assumes "base_inv s"
  shows "dom (tickets (step s x)) \<subseteq> dom (tickets s) \<union> set (created_ids [x])"
proof (cases x)
  case (CreateTicket tid p t now)
  from create_ticket_state [OF base_inv_wf [OF assms], of tid p t now]
  show ?thesis
  proof
    assume "snd (create_ticket s tid p t now) = s"
    then show ?thesis using CreateTicket by simp
  next
    assume "\<exists>pred. lower p \<in> set PRIORITY_LEVELS \<and> lower t \<in> set TICKET_TYPES \<and>
            snd (create_ticket s tid p t now) =
              enroute s tid (new_ticket tid (lower p) (lower t) now pred)"
    then obtain pred where v: "lower p \<in> set PRIORITY_LEVELS" "lower t \<in> set TICKET_TYPES"
      and e: "snd (create_ticket s tid p t now) =
              enroute s tid (new_ticket tid (lower p) (lower t) now pred)"
      by blast
    show ?thesis using CreateTicket v by (simp add: e dom_enroute)
  qed
next
  case (CloseTicket tid)
  show ?thesis
  proof (cases "tickets s tid")
    case None
    then show ?thesis using CloseTicket by (simp add: close_ticket_def)
  next
    case (Some t)
    have "wf_agents (released s tid t)"
      using base_inv_released [OF assms Some] by (rule base_inv_wf)
    then show ?thesis
      using CloseTicket Some close_ticket_base_inv [OF assms Some]
      by (cases "status t = STATUS_CLOSED")
        (simp_all add: close_ticket_def dom_drain_spec dom_released)
  qed
next
  case DrainQueues
  then show ?thesis
    using assms by (simp add: process_queues_base_inv dom_drain_spec base_inv_wf)
qed

lemma place_inv_step:
  assumes "base_inv s" and "place_inv s" and "set (created_ids [x]) \<inter> dom (tickets s) = {}"
  shows "place_inv (step s x)"
proof (cases x)
  case (CreateTicket tid p t now)
  from create_ticket_state [OF base_inv_wf [OF assms(1)], of tid p t now]
  show ?thesis
  proof
    assume "snd (create_ticket s tid p t now) = s"
    then show ?thesis using CreateTicket assms(2) by simp
  next
    assume "\<exists>pred. lower p \<in> set PRIORITY_LEVELS \<and> lower t \<in> set TICKET_TYPES \<and>
            snd (create_ticket s tid p t now) =
              enroute s tid (new_ticket tid (lower p) (lower t) now pred)"
    then obtain pred where v: "lower p \<in> set PRIORITY_LEVELS" "lower t \<in> set TICKET_TYPES"
      and e: "snd (create_ticket s tid p t now) =
              enroute s tid (new_ticket tid (lower p) (lower t) now pred)"
      by blast
    have "tid \<notin> dom (tickets s)" using assms(3) CreateTicket v by auto
    with assms(1,2)
    have "place_inv (enroute s tid (new_ticket tid (lower p) (lower t) now pred))"
      by (rule place_inv_enroute) (simp add: new_ticket_def)
    then show ?thesis using CreateTicket e by simp
  qed
next
  case (CloseTicket tid)
  show ?thesis
  proof (cases "tickets s tid")
    case None
    then show ?thesis using CloseTicket assms(2) by (simp add: close_ticket_def)
  next
    case (Some t)
    have "place_inv (snd (drain_spec (released s tid t)))"
      using assms(1,2) Some
      by (intro place_inv_drain_spec base_inv_released place_inv_released)
    then show ?thesis
      using CloseTicket Some assms(2) close_ticket_base_inv [OF assms(1) Some]
      by (cases "status t = STATUS_CLOSED") (simp_all add: close_ticket_def)
  qed
next
  case DrainQueues
  then show ?thesis
    using assms by (simp add: process_queues_base_inv place_inv_drain_spec)
qed

lemma created_ids_Cons: "created_ids (x # xs) = created_ids [x] @ created_ids xs"
  by (cases x) simp_all

lemma place_inv_run:
  assumes "base_inv s" and "place_inv s" and "distinct (created_ids xs)"
    and "set (created_ids xs) \<inter> dom (tickets s) = {}"
  shows "place_inv (run s xs)"
  using assms
proof (induction xs arbitrary: s)
  case Nil
  then show ?case by simp
next
  case (Cons x xs)
  have c: "created_ids (x # xs) = created_ids [x] @ created_ids xs"
    by (rule created_ids_Cons)
  have 1: "base_inv (step s x)" using Cons.prems(1) by (rule base_inv_step)
  have 2: "place_inv (step s x)"
    using Cons.prems(1,2,4) unfolding c by (intro place_inv_step) auto
  have 3: "distinct (created_ids xs)" using Cons.prems(3) unfolding c by simp
  have "dom (tickets (step s x)) \<subseteq> dom (tickets s) \<union> set (created_ids [x])"
    using Cons.prems(1) by (rule dom_step)
  then have 4: "set (created_ids xs) \<inter> dom (tickets (step s x)) = {}"
    using Cons.prems(3,4) unfolding c by auto
  show ?case using Cons.IH [OF 1 2 3 4] by simp
qed

lemma place_inv_init: "place_inv (init m)"
  by (simp add: place_inv_def init_def slots_def queued_def held_def)

lemma count_list_distinct: "distinct xs \<Longrightarrow> x \<in> set xs \<Longrightarrow> count_list xs x = 1"
  by (induction xs) auto

lemma one_container:
  "distinct (concat xss) \<Longrightarrow> x \<in> set (concat xss) \<Longrightarrow>
   length (filter (\<lambda>c. x \<in> set c) xss) = 1"
proof (induction xss)
  case Nil
  then show ?case by simp
next
  case (Cons c xss)
  show ?case
  proof (cases "x \<in> set c")
    case True
    then have "\<forall>c' \<in> set xss. x \<notin> set c'" using Cons.prems(1) by auto
    then have "filter (\<lambda>c. x \<in> set c) xss = []" by (simp add: filter_empty_conv)
    then show ?thesis using True by simp
  next
    case False
    then show ?thesis using Cons by auto
  qed
qed

lemma visit_None_walk:
  assumes "wf_agents s" and "fst (visit s x) = None"
  shows "fst (visit (snd (drain_walk q s)) x) = None"
  using assms
proof (induction q arbitrary: s)
  case Nil
  then show ?case by simp
next
  case (Cons y rest)
  show ?case
  proof (cases "fst (visit s y)")
    case None
    then have "snd (visit s y) = s" by (rule visit_None_same)
    then show ?thesis using Cons by (simp add: drain_walk_Cons)
  next
    case (Some a)
    have "fst (visit (snd (visit s y)) x) = None"
      using Cons.prems Some by (intro visit_None_stays) auto
    moreover have "wf_agents (snd (visit s y))" using Cons.prems(1) by (rule visit_wf)
    ultimately show ?thesis using Cons.IH by (simp add: drain_walk_Cons)
  qed
qed

lemma fst_visit_queue_update [simp]:
  "fst (visit (queue_update qn f s) x) = fst (visit s x)"
  by (simp add: visit_def split: option.splits)

lemma kept_walk_None:
  assumes "wf_agents s" and "x \<in> set (kept (fst (drain_walk q s)))"
  shows "fst (visit (snd (drain_walk q s)) x) = None"
  using assms
proof (induction q arbitrary: s)
  case Nil
  then show ?case by simp
next
  case (Cons y rest)
  show ?case
  proof (cases "fst (visit s y)")
    case None
    then have same: "snd (visit s y) = s" by (rule visit_None_same)
    show ?thesis
    proof (cases "x = y")
      case True
      then show ?thesis
        using visit_None_walk [OF Cons.prems(1), of y rest] None same
        by (simp add: drain_walk_Cons)
    next
      case False
      then have "x \<in> set (kept (fst (drain_walk rest s)))"
        using Cons.prems(2) None same by (simp add: drain_walk_Cons)
      then show ?thesis
        using Cons.IH [OF Cons.prems(1)] same by (simp add: drain_walk_Cons)
    qed
  next
    case (Some a)
    then have "x \<in> set (kept (fst (drain_walk rest (snd (visit s y)))))"
      using Cons.prems(2) by (simp add: drain_walk_Cons)
    moreover have "wf_agents (snd (visit s y))" using Cons.prems(1) by (rule visit_wf)
    ultimately show ?thesis using Cons.IH by (simp add: drain_walk_Cons)
  qed
qed

lemma visit_None_tier:
  assumes "wf_agents s" and "fst (visit s x) = None"
  shows "fst (visit (snd (drain_tier qn s)) x) = None"
  using visit_None_walk [OF assms] by (simp add: drain_tier_eq)

lemma kept_tier_None:
  assumes "wf_agents s" and "x \<in> set (kept (fst (drain_tier qn s)))"
  shows "fst (visit (snd (drain_tier qn s)) x) = None"
  using kept_walk_None [OF assms(1), of x "queue s qn"] assms(2) by (simp add: drain_tier_eq)

lemma stable_drain_spec:
  assumes "wf_agents s"
  shows "stable (snd (drain_spec s))"
proof -
  let ?s1 = "snd (drain_tier High s)"
  let ?s2 = "snd (drain_tier Medium ?s1)"
  let ?s3 = "snd (drain_tier Low ?s2)"
  have w1: "wf_agents ?s1" using assms by (rule drain_tier_wf)
  have w2: "wf_agents ?s2" using w1 by (rule drain_tier_wf)
  have s3: "snd (drain_spec s) = ?s3" by (simp add: drain_spec_eq)
  have q: "queued (snd (drain_spec s)) =
      kept (fst (drain_tier High s)) @ kept (fst (drain_tier Medium ?s1)) @
      kept (fst (drain_tier Low ?s2))"
    using drain_spec_queues [OF assms] by (simp add: queued_def del: queue.simps)
  have "fst (visit ?s3 x) = None" if "x \<in> set (kept (fst (drain_tier High s)))" for x
    using that assms w1 w2 by (intro visit_None_tier kept_tier_None)
  moreover have "fst (visit ?s3 x) = None" if "x \<in> set (kept (fst (drain_tier Medium ?s1)))" for x
    using that w1 w2 by (intro visit_None_tier kept_tier_None)
  moreover have "fst (visit ?s3 x) = None" if "x \<in> set (kept (fst (drain_tier Low ?s2)))" for x
    using that w2 by (intro kept_tier_None)
  moreover have "queued ?s3 =
      kept (fst (drain_tier High s)) @ kept (fst (drain_tier Medium ?s1)) @
      kept (fst (drain_tier Low ?s2))"
    using q unfolding s3 .
  ultimately show ?thesis unfolding stable_def s3 by auto
qed

lemma fst_visit_store:
  "x \<noteq> tid \<Longrightarrow> fst (visit (s\<lparr>tickets := (tickets s)(tid \<mapsto> t)\<rparr>) x) = fst (visit s x)"
  by (simp add: visit_def split: option.splits)

lemma stable_enroute:
  assumes "base_inv s" and "stable s" and "tid \<notin> dom (tickets s)"
  shows "stable (enroute s tid t)"
proof -
  have wf: "wf_agents s" using assms(1) by (rule base_inv_wf)
  have fresh: "tid \<notin> set (queued s)"
    using assms(1,3) by (auto simp: base_inv_def slots_def)
  let ?s1 = "s\<lparr>tickets := (tickets s)(tid \<mapsto> t)\<rparr>"
  have old: "fst (visit ?s1 x) = None" if "x \<in> set (queued s)" for x
  proof -
    have "x \<noteq> tid" using that fresh by auto
    then show ?thesis using assms(2) that by (simp add: fst_visit_store stable_def)
  qed
  show ?thesis
  proof (cases "find_available_agent s (priority t) (ticket_type t)")
    case None
    let ?qn = "get_queue_for_priority (priority t)"
    have q: "set (queued (queue_update ?qn (\<lambda>q. q @ [tid]) ?s1)) = insert tid (set (queued s))"
      by (cases ?qn) (auto simp: queued_def)
    have "fst (visit ?s1 tid) = None" using None by (simp add: visit_def)
    then show ?thesis
      using None old unfolding enroute_def stable_def by (auto simp: q)
  next
    case (Some a)
    have a: "a \<in> set agent_names" using find_available_agent_Some [OF wf Some] by simp
    have v: "visit ?s1 tid = (Some a, assigned s tid t a)"
      using Some agent_names_nonempty [OF a] by (simp add: visit_def)
    have "fst (visit (assigned s tid t a) x) = None" if "x \<in> set (queued s)" for x
      using visit_None_stays [of ?s1 x tid] old [OF that] wf v by simp
    then show ?thesis
      using Some unfolding enroute_def stable_def by simp
  qed
qed

lemma stable_step:
  assumes "base_inv s" and "stable s" and "set (created_ids [x]) \<inter> dom (tickets s) = {}"
  shows "stable (step s x)"
proof (cases x)
  case (CreateTicket tid p t now)
  from create_ticket_state [OF base_inv_wf [OF assms(1)], of tid p t now]
  show ?thesis
  proof
    assume "snd (create_ticket s tid p t now) = s"
    then show ?thesis using CreateTicket assms(2) by simp
  next
    assume "\<exists>pred. lower p \<in> set PRIORITY_LEVELS \<and> lower t \<in> set TICKET_TYPES \<and>
            snd (create_ticket s tid p t now) =
              enroute s tid (new_ticket tid (lower p) (lower t) now pred)"
    then obtain pred where v: "lower p \<in> set PRIORITY_LEVELS" "lower t \<in> set TICKET_TYPES"
      and e: "snd (create_ticket s tid p t now) =
              enroute s tid (new_ticket tid (lower p) (lower t) now pred)"
      by blast
    have "tid \<notin> dom (tickets s)" using assms(3) CreateTicket v by auto
    with assms(1,2)
    have "stable (enroute s tid (new_ticket tid (lower p) (lower t) now pred))"
      by (rule stable_enroute)
    then show ?thesis using CreateTicket e by simp
  qed
next
  case (CloseTicket tid)
  show ?thesis
  proof (cases "tickets s tid")
    case None
    then show ?thesis using CloseTicket assms(2) by (simp add: close_ticket_def)
  next
    case (Some t)
    have "wf_agents (released s tid t)"
      using base_inv_released [OF assms(1) Some] by (rule base_inv_wf)
    then have "stable (snd (drain_spec (released s tid t)))" by (rule stable_drain_spec)
    then show ?thesis
      using CloseTicket Some assms(2) close_ticket_base_inv [OF assms(1) Some]
      by (cases "status t = STATUS_CLOSED") (simp_all add: close_ticket_def)
  qed
next
  case DrainQueues
  then show ?thesis
    using assms(1) by (simp add: process_queues_base_inv stable_drain_spec base_inv_wf)
qed

lemma stable_run:
  assumes "base_inv s" and "stable s" and "distinct (created_ids xs)"
    and "set (created_ids xs) \<inter> dom (tickets s) = {}"
  shows "stable (run s xs)"
  using assms
proof (induction xs arbitrary: s)
  case Nil
  then show ?case by simp
next
  case (Cons x xs)
  have c: "created_ids (x # xs) = created_ids [x] @ created_ids xs"
    by (rule created_ids_Cons)
  have 1: "base_inv (step s x)" using Cons.prems(1) by (rule base_inv_step)
  have 2: "stable (step s x)"
    using Cons.prems(1,2,4) unfolding c by (intro stable_step) auto
  have 3: "distinct (created_ids xs)" using Cons.prems(3) unfolding c by simp
  have "dom (tickets (step s x)) \<subseteq> dom (tickets s) \<union> set (created_ids [x])"
    using Cons.prems(1) by (rule dom_step)
  then have 4: "set (created_ids xs) \<inter> dom (tickets (step s x)) = {}"
    using Cons.prems(3,4) unfolding c by auto
  show ?case using Cons.IH [OF 1 2 3 4] by simp
qed

lemma stable_init: "stable (init m)"
  by (simp add: stable_def init_def queued_def)

lemma find_available_agent_Some_cases:
  assumes "find_available_agent s p t = Some c"
  shows "(map_of TYPE_TO_PRIMARY_AGENT (lower t) = Some c \<and> c \<noteq> [] \<and> is_agent_available s c) \<or>
         (lower p \<noteq> ''high'' \<and> c \<in> set (dict_get SECONDARY_ASSIGNMENTS (lower p, lower t) []) \<and>
            is_agent_available s c) \<or>
         (lower p \<noteq> ''high'' \<and> c \<in> set (map fst (agent_tickets s)) \<and> is_agent_available s c)"
proof -
  let ?prim = "map_of TYPE_TO_PRIMARY_AGENT (lower t)"
  let ?sec = "dict_get SECONDARY_ASSIGNMENTS (lower p, lower t) []"
  let ?first = "truthy ?prim \<and> (case ?prim of None \<Rightarrow> False | Some a \<Rightarrow> is_agent_available s a)"
  show ?thesis
  proof (cases ?first)
    case True
    then have "find_available_agent s p t = ?prim"
      by (simp add: find_available_agent_def Let_def)
    then have "?prim = Some c" using assms by simp
    then show ?thesis using True by simp
  next
    case False
    note nf = this
    show ?thesis
    proof (cases "lower p = ''high''")
      case True
      then have "find_available_agent s p t = None"
        using nf by (auto simp: find_available_agent_def Let_def)
      then show ?thesis using assms by simp
    next
      case False
      then have eq: "find_available_agent s p t =
          (case List.find (is_agent_available s) ?sec of
             Some a \<Rightarrow> Some a
           | None \<Rightarrow> List.find (is_agent_available s) (map fst (agent_tickets s)))"
        using nf by (auto simp: find_available_agent_def Let_def)
      show ?thesis
      proof (cases "List.find (is_agent_available s) ?sec")
        case None
        then have "List.find (is_agent_available s) (map fst (agent_tickets s)) = Some c"
          using eq assms by simp
        then have "c \<in> set (map fst (agent_tickets s)) \<and> is_agent_available s c"
          by (rule find_SomeD)
        then show ?thesis using False by blast
      next
        case (Some d)
        then have "d = c" using eq assms by simp
        then have "c \<in> set ?sec \<and> is_agent_available s c"
          using Some find_SomeD by fastforce
        then show ?thesis using False by blast
      qed
    qed
  qed
qed

lemma find_available_agent_only:
  assumes "wf_agents s" and "wf_agents s'"
    and "find_available_agent s p t = None"
    and "\<And>b. b \<noteq> a \<Longrightarrow> workload s' b = workload s b"
    and "find_available_agent s' p t = Some c"
  shows "c = a"
proof (rule ccontr)
  assume "c \<noteq> a"
  then have av: "is_agent_available s' c = is_agent_available s c"
    using assms(4) by (simp add: is_agent_available_def get_agent_load_def)
  have keys: "map fst (agent_tickets s') = map fst (agent_tickets s)"
    using assms(1,2) by (simp add: wf_agents_def)
  have n1: "map_of TYPE_TO_PRIMARY_AGENT (lower t) = Some c \<Longrightarrow> c = [] \<or> \<not> is_agent_available s c"
    and n2: "lower p \<noteq> ''high'' \<Longrightarrow>
          c \<in> set (dict_get SECONDARY_ASSIGNMENTS (lower p, lower t) []) \<Longrightarrow>
          \<not> is_agent_available s c"
    and n3: "lower p \<noteq> ''high'' \<Longrightarrow> c \<in> set (map fst (agent_tickets s)) \<Longrightarrow>
          \<not> is_agent_available s c"
    using assms(3) unfolding find_available_agent_None_iff by blast+
  from find_available_agent_Some_cases [OF assms(5)] show False
    using n1 n2 n3 av keys by metis
qed

lemma only_agent_queue_update [simp]:
  "only_agent a s (queue_update qn f s') = only_agent a s s'"
  by (simp add: only_agent_def)

lemma only_agent_assigned:
  assumes "only_agent a s s'" and "tickets s' y = Some t'" and "a \<in> set agent_names"
  shows "only_agent a s (assigned s' y t' a)"
proof -
  let ?f = "\<lambda>t. (priority t, ticket_type t)"
  have wf': "wf_agents s'"
    and wl: "\<And>b. b \<noteq> a \<Longrightarrow> workload s' b = workload s b"
    and eq: "\<And>x. map_option ?f (tickets s' x) = map_option ?f (tickets s x)"
    using assms(1) unfolding only_agent_def by blast+
  have 1: "wf_agents (assigned s' y t' a)" using wf' assms(3) by (rule wf_agents_assigned)
  have 2: "workload (assigned s' y t' a) b = workload s b" if "b \<noteq> a" for b
    using that wl [OF that] by (simp add: workload_assigned)
  have 3: "map_option ?f (tickets (assigned s' y t' a) x) = map_option ?f (tickets s x)" for x
  proof (cases "x = y")
    case True
    have "map_option ?f (tickets s y) = map_option ?f (tickets s' y)"
      by (rule eq [symmetric])
    also have "\<dots> = Some (priority t', ticket_type t')"
      using assms(2) by simp
    finally have r: "map_option ?f (tickets s y) = Some (priority t', ticket_type t')" .
    have l: "map_option ?f (tickets (assigned s' y t' a) y) = Some (priority t', ticket_type t')"
      by (simp add: tickets_assigned)
    show ?thesis unfolding True l r by (rule refl)
  next
    case False
    then show ?thesis using eq [of x] by (simp add: tickets_assigned)
  qed
  show ?thesis unfolding only_agent_def using 1 2 3 by blast
qed

lemma drain_walk_only:
  assumes "wf_agents s" and "only_agent a s s'" and "\<forall>x \<in> set q. fst (visit s x) = None"
  shows "(\<forall>b. b \<noteq> a \<longrightarrow> drained_to b (fst (drain_walk q s')) = []) \<and>
         only_agent a s (snd (drain_walk q s'))"
  using assms(2,3)
proof (induction q arbitrary: s')
  case Nil
  then show ?case by simp
next
  case (Cons y rest)
  let ?f = "\<lambda>t. (priority t, ticket_type t)"
  have wf': "wf_agents s'"
    and wl: "\<And>b. b \<noteq> a \<Longrightarrow> workload s' b = workload s b"
    and eq: "\<And>x. map_option ?f (tickets s' x) = map_option ?f (tickets s x)"
    using Cons.prems(1) unfolding only_agent_def by blast+
  have rest: "\<forall>x \<in> set rest. fst (visit s x) = None" using Cons.prems(2) by simp
  from wf' show ?case
  proof (cases rule: visit_cases [where tid = y])
    case stay
    have "(\<forall>b. b \<noteq> a \<longrightarrow> drained_to b (fst (drain_walk rest s')) = []) \<and>
         only_agent a s (snd (drain_walk rest s'))"
      using Cons.prems(1) rest by (rule Cons.IH)
    then show ?thesis by (simp add: drain_walk_Cons stay)
  next
    case (move t' c)
    have "map_option ?f (tickets s y) = Some (priority t', ticket_type t')"
      using eq [of y] move(1) by simp
    then obtain t0 where t0: "tickets s y = Some t0" "priority t0 = priority t'"
        "ticket_type t0 = ticket_type t'"
      by (cases "tickets s y") auto
    have "fst (visit s y) = None" using Cons.prems(2) by simp
    then have "if_truthy (find_available_agent s (priority t0) (ticket_type t0)) = None"
      using t0(1) by (simp add: visit_def split: option.splits)
    then have nf: "find_available_agent s (priority t') (ticket_type t') = None"
      using t0(2,3) by (simp add: if_truthy_find [OF assms(1)])
    have c: "c = a"
      using assms(1) wf' nf wl move(2) by (rule find_available_agent_only)
    have "only_agent a s (assigned s' y t' a)"
      using Cons.prems(1) move(1) move(3) unfolding c by (rule only_agent_assigned)
    then have "(\<forall>b. b \<noteq> a \<longrightarrow> drained_to b (fst (drain_walk rest (assigned s' y t' a))) = []) \<and>
         only_agent a s (snd (drain_walk rest (assigned s' y t' a)))"
      using rest by (rule Cons.IH)
    then show ?thesis using move(5) unfolding c by (simp add: drain_walk_Cons)
  qed
qed

lemma drain_tier_only:
  assumes "wf_agents s" and "only_agent a s s'"
    and "\<forall>x \<in> set (queue s' qn). fst (visit s x) = None"
  shows "(\<forall>b. b \<noteq> a \<longrightarrow> drained_to b (fst (drain_tier qn s')) = []) \<and>
         only_agent a s (snd (drain_tier qn s'))"
  using drain_walk_only [OF assms] by (simp add: drain_tier_eq)

lemma drain_spec_only:
  assumes "wf_agents s" and "stable s" and "only_agent a s s'"
    and "queued s' = queued s" and "b \<noteq> a"
  shows "drained_to b (fst (drain_spec s')) = []"
proof -
  let ?s1 = "snd (drain_tier High s')"
  let ?s2 = "snd (drain_tier Medium ?s1)"
  have wf': "wf_agents s'" using assms(3) by (simp add: only_agent_def)
  have w1: "wf_agents ?s1" using wf' by (rule drain_tier_wf)
  have none: "fst (visit s x) = None" if "x \<in> set (queued s')" for x
    using that assms(2,4) by (simp add: stable_def)
  have qm: "queue ?s1 Medium = queue s' Medium"
    by (simp add: drain_tier_queue [OF wf'] del: queue.simps)
  have ql: "queue ?s2 Low = queue s' Low"
    by (simp add: drain_tier_queue [OF wf'] drain_tier_queue [OF w1] del: queue.simps)
  have 1: "(\<forall>b. b \<noteq> a \<longrightarrow> drained_to b (fst (drain_tier High s')) = []) \<and>
         only_agent a s ?s1"
    using assms(1,3) none by (intro drain_tier_only) (auto simp: queued_def)
  have nm: "\<forall>x \<in> set (queue ?s1 Medium). fst (visit s x) = None"
    using none qm by (auto simp: queued_def)
  have nl: "\<forall>x \<in> set (queue ?s2 Low). fst (visit s x) = None"
    using none ql by (auto simp: queued_def)
  have 2: "(\<forall>b. b \<noteq> a \<longrightarrow> drained_to b (fst (drain_tier Medium ?s1)) = []) \<and>
         only_agent a s ?s2"
    using assms(1) 1 [THEN conjunct2] nm by (rule drain_tier_only)
  have 3: "(\<forall>b. b \<noteq> a \<longrightarrow> drained_to b (fst (drain_tier Low ?s2)) = [])"
    using drain_tier_only [OF assms(1) 2 [THEN conjunct2] nl] by simp
  show ?thesis using 1 2 3 assms(5) by (simp add: drain_spec_eq drained_to_append)
qed

lemma close_ticket_others_unchanged:
  assumes "base_inv s" and "stable s"
    and "tickets s tid = Some t" and "status t \<noteq> STATUS_CLOSED"
    and "assigned_agent t = Some a" and "b \<noteq> a"
  shows "workload (snd (close_ticket s tid)) b = workload s b"
proof -
  have wf: "wf_agents s" using assms(1) by (rule base_inv_wf)
  have "ticket_ok t" using assms(1,3) by (auto simp: base_inv_def)
  then have known: "\<And>c. assigned_agent t = Some c \<Longrightarrow> c \<in> set agent_names"
    by (simp add: ticket_ok_def)
  let ?s1 = "released s tid t"
  have wf1: "wf_agents ?s1" using wf known by (rule wf_agents_released)
  have w: "workload ?s1 c =
      (if assigned_agent t = Some c then remove1 tid (workload s c) else workload s c)" for c
    using wf known by (rule workload_released)
  have only: "only_agent a s ?s1"
    using wf1 w assms(3,5) by (auto simp: only_agent_def tickets_released)
  have "drained_to b (fst (drain_spec ?s1)) = []"
    using wf assms(2) only _ assms(6) by (rule drain_spec_only) simp
  then have "workload (snd (drain_spec ?s1)) b = workload ?s1 b"
    using workload_drain_spec [OF wf1, of b] by simp
  then show ?thesis
    using close_ticket_base_inv [OF assms(1,3,4)] w assms(5,6) by simp
qed


subsection \<open>Closing an assigned ticket, in any state with the registry intact\<close>

text \<open>
  The release takes one occurrence of the id off the list of the ticket's agent and
  leaves the other lists as they were; the drain that follows appends to each list the
  tickets it newly assigns to that agent. That the drain assigns nothing to another
  agent is shown for the states reached by a run whose created ids are distinct.
\<close>

lemma close_ticket_effect:
  assumes "wf_agents s" and "queued_known s"
    and "tickets s tid = Some t" and "status t \<noteq> STATUS_CLOSED"
    and "assigned_agent t = Some a" and "tid \<in> set (workload s a)"
  shows "\<exists>s1 new s2.
           release_ticket s tid t = (Inr (), s1) \<and>
           workload s1 a = remove1 tid (workload s a) \<and>
           length (workload s1 a) + 1 = length (workload s a) \<and>
           (\<forall>b. b \<noteq> a \<longrightarrow> workload s1 b = workload s b) \<and>
           process_queues s1 = (Inr new, s2) \<and>
           close_ticket s tid = (Inr (Closed tid (Some a) new), s2) \<and>
           (\<forall>b. workload s2 b =
                  workload s1 b @ map a_ticket_id (filter (\<lambda>n. a_assigned_agent n = b) new)) \<and>
           ((\<exists>m xs. s = run (init m) xs \<and> distinct (created_ids xs)) \<longrightarrow>
              (\<forall>b. b \<noteq> a \<longrightarrow> workload s2 b = workload s b))"
proof -
  have a: "a \<in> set agent_names"
  proof (rule ccontr)
    assume "a \<notin> set agent_names"
    then have "a \<notin> fst ` set (agent_tickets s)"
      using assms(1) by (metis wf_agents_def set_map)
    then have "map_of (agent_tickets s) a = None"
      by (simp add: map_of_eq_None_iff)
    then show False using assms(6) by (simp add: dict_get_def)
  qed
  have known: "\<And>b. assigned_agent t = Some b \<Longrightarrow> b \<in> set agent_names"
    using a assms(5) by simp
  let ?s1 = "released s tid t"
  let ?tr = "fst (drain_spec ?s1)"
  have r: "release_ticket s tid t = (Inr (), ?s1)"
    using assms(1) known by (rule release_ticket_released)
  have w: "workload ?s1 b =
      (if assigned_agent t = Some b then remove1 tid (workload s b) else workload s b)" for b
    using assms(1) known by (rule workload_released)
  have wf1: "wf_agents ?s1" using assms(1) known by (rule wf_agents_released)
  have qk1: "queued_known ?s1" using assms(2) by (rule queued_known_released)
  have p: "process_queues ?s1 = (Inr (newly ?tr), snd (drain_spec ?s1))"
    using wf1 qk1 by (rule process_queues_drain_spec)
  have c: "close_ticket s tid = (Inr (Closed tid (Some a) (newly ?tr)), snd (drain_spec ?s1))"
    using assms(3,4,5) by (simp add: close_ticket_def r p)
  have l: "length (remove1 tid (workload s a)) + 1 = length (workload s a)"
    using assms(6) by (simp add: length_remove1) (metis length_pos_if_in_set Suc_pred)
  have d: "workload (snd (drain_spec ?s1)) b =
      workload ?s1 b @ map a_ticket_id (filter (\<lambda>n. a_assigned_agent n = b) (newly ?tr))"
    for b
    using workload_drain_spec [OF wf1, of b] by (simp add: drained_to_def)
  have fr: "(\<exists>m xs. s = run (init m) xs \<and> distinct (created_ids xs)) \<longrightarrow>
              (\<forall>b. b \<noteq> a \<longrightarrow> workload (snd (drain_spec ?s1)) b = workload s b)"
  proof (intro impI allI)
    fix b
    assume "\<exists>m xs. s = run (init m) xs \<and> distinct (created_ids xs)" and ba: "b \<noteq> a"
    then obtain m xs where s: "s = run (init m) xs" and dx: "distinct (created_ids xs)"
      by blast
    have bi: "base_inv s" unfolding s by (intro base_inv_run base_inv_init)
    have st: "stable s"
      unfolding s using dx
      by (intro stable_run base_inv_init stable_init) (simp_all add: init_def)
    have "workload (snd (close_ticket s tid)) b = workload s b"
      using bi st assms(3,4,5) ba by (rule close_ticket_others_unchanged)
    then show "workload (snd (drain_spec ?s1)) b = workload s b"
      unfolding c by simp
  qed
  have w1: "workload ?s1 a = remove1 tid (workload s a)"
    and w2: "\<forall>b. b \<noteq> a \<longrightarrow> workload ?s1 b = workload s b"
    using w assms(5) by simp_all
  have l1: "length (workload ?s1 a) + 1 = length (workload s a)"
    unfolding w1 by (rule l)
  show ?thesis
  proof (intro exI conjI)
    show "release_ticket s tid t = (Inr (), ?s1)" by (rule r)
    show "workload ?s1 a = remove1 tid (workload s a)" by (rule w1)
    show "length (workload ?s1 a) + 1 = length (workload s a)" by (rule l1)
    show "\<forall>b. b \<noteq> a \<longrightarrow> workload ?s1 b = workload s b" by (rule w2)
    show "process_queues ?s1 = (Inr (newly ?tr), snd (drain_spec ?s1))" by (rule p)
    show "close_ticket s tid = (Inr (Closed tid (Some a) (newly ?tr)), snd (drain_spec ?s1))"
      by (rule c)
    show "\<forall>b. workload (snd (drain_spec ?s1)) b =
           workload ?s1 b @ map a_ticket_id (filter (\<lambda>n. a_assigned_agent n = b) (newly ?tr))"
      using d by blast
    show "(\<exists>m xs. s = run (init m) xs \<and> distinct (created_ids xs)) \<longrightarrow>
              (\<forall>b. b \<noteq> a \<longrightarrow> workload (snd (drain_spec ?s1)) b = workload s b)"
      by (rule fr)
  qed
qed


section \<open>The properties of the specification\<close>

text \<open>
  C1. Closing a ticket that is queued and was never assigned should take its id out of
  its priority queue. The code does not: \<open>close_ticket\<close> only looks at the agent's list.
  With the software specialist full, \<open>T6\<close> is queued, open and unassigned; closing it
  returns normally and leaves \<open>T6\<close> in the high queue, and the drain triggered by the
  next closure (of \<open>T1\<close>) considers that id again and assigns it.
\<close>

theorem closed_queued_ticket_stays_queued:
  "map_option status (tickets (run (init None) six_high_software) ''T6'') = Some STATUS_OPEN \<and>
   map_option assigned_agent (tickets (run (init None) six_high_software) ''T6'') = Some None \<and>
   high_priority_queue (run (init None) six_high_software) = [''T6''] \<and>
   fst (close_ticket (run (init None) six_high_software) ''T6'') = Inr (Closed ''T6'' None []) \<and>
   high_priority_queue (snd (close_ticket (run (init None) six_high_software) ''T6'')) = [''T6''] \<and>
   fst (close_ticket (run (init None) (six_high_software @ [CloseTicket ''T6''])) ''T1'') =
     Inr (Closed ''T1'' (Some ''Agent 1'')
            [\<lparr>a_ticket_id = ''T6'', a_assigned_agent = ''Agent 1'',
              a_assigned_agent_id = ''692479b918668dee67209282''\<rparr>])"
  by code_simp

text \<open>
  C2. The status of a ticket should only move from open to pending to closed. In the
  code the closed ticket \<open>T6\<close> of the scenario above, still sitting in the high queue, is
  set back to pending by the drain that follows the closure of \<open>T1\<close>, and takes the freed
  place on the specialist's list.
\<close>

theorem closed_ticket_becomes_pending:
  "map_option status
     (tickets (run (init None) (six_high_software @ [CloseTicket ''T6''])) ''T6'')
     = Some STATUS_CLOSED \<and>
   map_option status
     (tickets (run (init None) (six_high_software @ [CloseTicket ''T6'', CloseTicket ''T1''])) ''T6'')
     = Some STATUS_PENDING \<and>
   dict_get (agent_tickets
      (run (init None) (six_high_software @ [CloseTicket ''T6'', CloseTicket ''T1'']))) ''Agent 1'' []
     = [''T2'', ''T3'', ''T4'', ''T5'', ''T6'']"
  by code_simp

text \<open>
  C3. Whatever sequence of creations, closures and drains is run from the initial state,
  no agent's list of tickets is longer than the capacity limit of five.
\<close>

theorem workload_within_capacity:
  assumes "(a, w) \<in> set (agent_tickets (run (init m) xs))"
  shows "length w \<le> 5"
proof -
  let ?s = "run (init m) xs"
  have inv: "base_inv ?s" by (intro base_inv_run base_inv_init)
  then have "distinct (map fst (agent_tickets ?s))"
    by (intro wf_agents_distinct base_inv_wf)
  then have "map_of (agent_tickets ?s) a = Some w"
    using assms by simp
  then have "workload ?s a = w" by (simp add: dict_get_def)
  moreover have "length (workload ?s a) \<le> MAX_TICKETS_PER_AGENT"
    using inv by (simp add: base_inv_def)
  ultimately show ?thesis by (simp add: MAX_TICKETS_PER_AGENT_def)
qed

theorem workload_within_capacity_witness:
  "(''Agent 1'', [''T1'', ''T2'', ''T3'', ''T4'', ''T5''])
     \<in> set (agent_tickets (run (init None) six_high_software)) \<and>
   length [''T1'', ''T2'', ''T3'', ''T4'', ''T5''] \<le> (5::nat)"
proof -
  have h: "(''Agent 1'', [''T1'', ''T2'', ''T3'', ''T4'', ''T5''])
     \<in> set (agent_tickets (run (init None) six_high_software))"
    by code_simp
  show ?thesis using h workload_within_capacity [OF h] by simp
qed

text \<open>
  C4. When the ids of the tickets created along a run are distinct, every stored ticket
  that is not closed is in exactly one place: exactly one of the containers (the three
  queues and the agents' lists) holds its id, and holds it once.
\<close>

theorem open_ticket_in_one_place:
  assumes "distinct (created_ids xs)"
    and "tickets (run (init m) xs) tid = Some t" and "status t \<noteq> STATUS_CLOSED"
  shows "length (filter (\<lambda>c. tid \<in> set c) (containers (run (init m) xs))) = 1 \<and>
         count_list (concat (containers (run (init m) xs))) tid = 1"
proof -
  let ?s = "run (init m) xs"
  have b: "base_inv ?s" by (intro base_inv_run base_inv_init)
  have p: "place_inv ?s"
    using assms(1) by (intro place_inv_run base_inv_init place_inv_init) (simp_all add: init_def)
  have "ticket_ok t" using b assms(2) by (auto simp: base_inv_def)
  then have "status t = STATUS_OPEN \<or> status t = STATUS_PENDING"
    using assms(3) by (auto simp: ticket_ok_def)
  then have "tid \<in> set (slots ?s)"
    using p assms(2) by (auto simp: place_inv_def slots_def)
  moreover have "distinct (slots ?s)" using p by (simp add: place_inv_def)
  ultimately show ?thesis
    unfolding slots_containers by (simp add: one_container count_list_distinct)
qed

theorem open_ticket_in_one_place_witness:
  "distinct (created_ids six_high_software) \<and>
   map_option status (tickets (run (init None) six_high_software) ''T6'') = Some STATUS_OPEN \<and>
   STATUS_OPEN \<noteq> STATUS_CLOSED \<and>
   containers (run (init None) six_high_software) =
     [[''T6''], [], [], [''T1'', ''T2'', ''T3'', ''T4'', ''T5''], [], []] \<and>
   length (filter (\<lambda>c. ''T6'' \<in> set c) (containers (run (init None) six_high_software))) = 1 \<and>
   count_list (concat (containers (run (init None) six_high_software))) ''T6'' = 1"
proof -
  let ?s = "run (init None) six_high_software"
  have d: "distinct (created_ids six_high_software)" by code_simp
  have st: "map_option status (tickets ?s ''T6'') = Some STATUS_OPEN" by code_simp
  have ne: "STATUS_OPEN \<noteq> STATUS_CLOSED" by (simp add: STATUS_OPEN_def STATUS_CLOSED_def)
  have c: "containers ?s = [[''T6''], [], [], [''T1'', ''T2'', ''T3'', ''T4'', ''T5''], [], []]"
    by code_simp
  from st obtain t where t: "tickets ?s ''T6'' = Some t" "status t = STATUS_OPEN" by auto
  then have "status t \<noteq> STATUS_CLOSED" using ne by simp
  from open_ticket_in_one_place [OF d t(1) this] d st ne c show ?thesis by simp
qed



text \<open>
  C6. For a high-priority ticket of any of the three types, \<open>_find_available_agent\<close>
  returns the primary specialist of the type when that agent has spare capacity and
  nothing otherwise. Consequently, in every reachable state, a stored high-priority
  ticket that carries an agent (set at creation or by a drain) carries the primary
  specialist of its type.
\<close>

theorem high_priority_only_primary:
  "(ttype \<in> set TICKET_TYPES \<longrightarrow>
      (\<exists>a. map_of TYPE_TO_PRIMARY_AGENT ttype = Some a \<and>
           find_available_agent s ''high'' ttype =
             (if is_agent_available s a then Some a else None))) \<and>
   (tickets (run (init m) xs) tid = Some t \<and> priority t = ''high'' \<and>
    assigned_agent t = Some b \<longrightarrow>
      map_of TYPE_TO_PRIMARY_AGENT (ticket_type t) = Some b)"
proof
  show "ttype \<in> set TICKET_TYPES \<longrightarrow>
      (\<exists>a. map_of TYPE_TO_PRIMARY_AGENT ttype = Some a \<and>
           find_available_agent s ''high'' ttype =
             (if is_agent_available s a then Some a else None))"
  proof
    assume t: "ttype \<in> set TICKET_TYPES"
    then obtain a where a: "map_of TYPE_TO_PRIMARY_AGENT ttype = Some a"
      by (auto simp: TICKET_TYPES_def TYPE_TO_PRIMARY_AGENT_def)
    then have "a \<noteq> []" by (auto dest: primary_known agent_names_nonempty)
    then have "find_available_agent s ''high'' ttype =
             (if is_agent_available s a then Some a else None)"
      using a by (simp add: find_available_agent_def lower_high lower_types [OF t])
    with a show "\<exists>a. map_of TYPE_TO_PRIMARY_AGENT ttype = Some a \<and>
           find_available_agent s ''high'' ttype =
             (if is_agent_available s a then Some a else None)"
      by blast
  qed
next
  have "base_inv (run (init m) xs)" by (intro base_inv_run base_inv_init)
  then show "tickets (run (init m) xs) tid = Some t \<and> priority t = ''high'' \<and>
    assigned_agent t = Some b \<longrightarrow>
      map_of TYPE_TO_PRIMARY_AGENT (ticket_type t) = Some b"
    by (auto simp: base_inv_def ticket_ok_def)
qed

theorem high_priority_only_primary_witness:
  "''software'' \<in> set TICKET_TYPES \<and>
   map_of TYPE_TO_PRIMARY_AGENT ''software'' = Some ''Agent 1'' \<and>
   \<not> is_agent_available (run (init None) six_high_software) ''Agent 1'' \<and>
   find_available_agent (run (init None) six_high_software) ''high'' ''software'' = None \<and>
   map_option priority (tickets (run (init None) six_high_software) ''T1'') = Some ''high'' \<and>
   map_option assigned_agent (tickets (run (init None) six_high_software) ''T1'')
     = Some (Some ''Agent 1'') \<and>
   map_option ticket_type (tickets (run (init None) six_high_software) ''T1'')
     = Some ''software''"
proof -
  let ?s = "run (init None) six_high_software"
  have 1: "''software'' \<in> set TICKET_TYPES" by code_simp
  have 2: "map_of TYPE_TO_PRIMARY_AGENT ''software'' = Some ''Agent 1''" by code_simp
  have 3: "\<not> is_agent_available ?s ''Agent 1''" by code_simp
  have 4: "map_option priority (tickets ?s ''T1'') = Some ''high''"
    "map_option assigned_agent (tickets ?s ''T1'') = Some (Some ''Agent 1'')"
    by code_simp+
  then obtain t where t: "tickets ?s ''T1'' = Some t" "priority t = ''high''"
    "assigned_agent t = Some ''Agent 1''"
    by auto
  have 5: "find_available_agent ?s ''high'' ''software'' = None"
    and 6: "map_of TYPE_TO_PRIMARY_AGENT (ticket_type t) = Some ''Agent 1''"
    using high_priority_only_primary
      [of "''software''" ?s None six_high_software "''T1''" t "''Agent 1''"] 1 2 3 t
    by auto
  have "ticket_type t = ''software''"
    using 6 by (auto simp: TYPE_TO_PRIMARY_AGENT_def split: if_splits)
  then show ?thesis using 1 2 3 4 5 t by simp
qed

text \<open>
  C7. In a state reached by a run whose created ids are distinct, closing a ticket that
  is not closed and sits on the list of the agent recorded on it: the release takes
  exactly one occurrence of the id off that agent's list, which gets one shorter, and
  leaves the list of every other agent as it was; and the whole closure, with the drain
  that \<open>close_ticket\<close> runs after the release, leaves the list of every other agent as
  it was, and the agent's own list is what the release left followed by the tickets that
  the drain newly assigns to this agent. The assumption on the ids is needed, as the
  example after the witness shows.
\<close>

theorem close_frees_one_slot:
  assumes "distinct (created_ids xs)" and "s = run (init m) xs"
    and "tickets s tid = Some t" and "status t \<noteq> STATUS_CLOSED"
    and "assigned_agent t = Some a" and "tid \<in> set (workload s a)"
  shows "\<exists>s1 new s2.
           release_ticket s tid t = (Inr (), s1) \<and>
           workload s1 a = remove1 tid (workload s a) \<and>
           length (workload s1 a) + 1 = length (workload s a) \<and>
           (\<forall>b. b \<noteq> a \<longrightarrow> workload s1 b = workload s b) \<and>
           process_queues s1 = (Inr new, s2) \<and>
           close_ticket s tid = (Inr (Closed tid (Some a) new), s2) \<and>
           workload s2 a =
             remove1 tid (workload s a) @
             map a_ticket_id (filter (\<lambda>n. a_assigned_agent n = a) new) \<and>
           (\<forall>b. b \<noteq> a \<longrightarrow> workload s2 b = workload s b)"
proof -
  have bi: "base_inv s" unfolding assms(2) by (intro base_inv_run base_inv_init)
  have wf: "wf_agents s" using bi by (rule base_inv_wf)
  have qk: "queued_known s" using bi by (rule base_inv_queued_known)
  have reach: "\<exists>m xs. s = run (init m) xs \<and> distinct (created_ids xs)"
    using assms(1,2) by blast
  from close_ticket_effect [OF wf qk assms(3,4,5,6)]
  obtain s1 new s2 where
    1: "release_ticket s tid t = (Inr (), s1)"
    and 2: "workload s1 a = remove1 tid (workload s a)"
    and 3: "length (workload s1 a) + 1 = length (workload s a)"
    and 4: "\<forall>b. b \<noteq> a \<longrightarrow> workload s1 b = workload s b"
    and 5: "process_queues s1 = (Inr new, s2)"
    and 6: "close_ticket s tid = (Inr (Closed tid (Some a) new), s2)"
    and 7: "\<forall>b. workload s2 b =
           workload s1 b @ map a_ticket_id (filter (\<lambda>n. a_assigned_agent n = b) new)"
    and 8: "(\<exists>m xs. s = run (init m) xs \<and> distinct (created_ids xs)) \<longrightarrow>
              (\<forall>b. b \<noteq> a \<longrightarrow> workload s2 b = workload s b)"
    by blast
  have 9: "\<forall>b. b \<noteq> a \<longrightarrow> workload s2 b = workload s b"
    using 8 reach by blast
  have 10: "workload s2 a =
             remove1 tid (workload s a) @
             map a_ticket_id (filter (\<lambda>n. a_assigned_agent n = a) new)"
    using 7 2 by simp
  show ?thesis
    using 1 2 3 4 5 6 9 10 by blast
qed

theorem close_frees_one_slot_witness:
  "distinct (created_ids six_high_software) \<and>
   map_option status (tickets (run (init None) six_high_software) ''T1'') = Some STATUS_PENDING \<and>
   map_option assigned_agent (tickets (run (init None) six_high_software) ''T1'')
     = Some (Some ''Agent 1'') \<and>
   workload (run (init None) six_high_software) ''Agent 1''
     = [''T1'', ''T2'', ''T3'', ''T4'', ''T5''] \<and>
   (\<exists>t s1 new s2.
      tickets (run (init None) six_high_software) ''T1'' = Some t \<and>
      release_ticket (run (init None) six_high_software) ''T1'' t = (Inr (), s1) \<and>
      workload s1 ''Agent 1'' = [''T2'', ''T3'', ''T4'', ''T5''] \<and>
      workload s1 ''Agent 2'' = workload (run (init None) six_high_software) ''Agent 2'' \<and>
      workload s1 ''Agent 3'' = workload (run (init None) six_high_software) ''Agent 3'' \<and>
      close_ticket (run (init None) six_high_software) ''T1''
        = (Inr (Closed ''T1'' (Some ''Agent 1'') new), s2) \<and>
      workload s2 ''Agent 1'' =
        [''T2'', ''T3'', ''T4'', ''T5''] @
        map a_ticket_id (filter (\<lambda>n. a_assigned_agent n = ''Agent 1'') new) \<and>
      workload s2 ''Agent 2'' = workload (run (init None) six_high_software) ''Agent 2'' \<and>
      workload s2 ''Agent 3'' = workload (run (init None) six_high_software) ''Agent 3'')"
proof -
  let ?s = "run (init None) six_high_software"
  have dx: "distinct (created_ids six_high_software)" by code_simp
  have st: "map_option status (tickets ?s ''T1'') = Some STATUS_PENDING"
    and ag: "map_option assigned_agent (tickets ?s ''T1'') = Some (Some ''Agent 1'')"
    by code_simp+
  have w: "workload ?s ''Agent 1'' = [''T1'', ''T2'', ''T3'', ''T4'', ''T5'']"
    by code_simp
  from st ag obtain t where t: "tickets ?s ''T1'' = Some t" "status t = STATUS_PENDING"
    "assigned_agent t = Some ''Agent 1''"
    by auto
  have nc: "status t \<noteq> STATUS_CLOSED"
    using t(2) by (simp add: STATUS_PENDING_def STATUS_CLOSED_def)
  have mem: "''T1'' \<in> set (workload ?s ''Agent 1'')" using w by simp
  from close_frees_one_slot [OF dx refl t(1) nc t(3) mem]
  obtain s1 new s2 where
    1: "release_ticket ?s ''T1'' t = (Inr (), s1)"
    and 2: "workload s1 ''Agent 1'' = remove1 ''T1'' (workload ?s ''Agent 1'')"
    and 3: "\<forall>b. b \<noteq> ''Agent 1'' \<longrightarrow> workload s1 b = workload ?s b"
    and 4: "close_ticket ?s ''T1'' = (Inr (Closed ''T1'' (Some ''Agent 1'') new), s2)"
    and 5: "workload s2 ''Agent 1'' =
             remove1 ''T1'' (workload ?s ''Agent 1'') @
             map a_ticket_id (filter (\<lambda>n. a_assigned_agent n = ''Agent 1'') new)"
    and 6: "\<forall>b. b \<noteq> ''Agent 1'' \<longrightarrow> workload s2 b = workload ?s b"
    by blast
  have s1a: "workload s1 ''Agent 1'' = [''T2'', ''T3'', ''T4'', ''T5'']"
    using 2 w by simp
  have s1b: "workload s1 ''Agent 2'' = workload ?s ''Agent 2''"
    "workload s1 ''Agent 3'' = workload ?s ''Agent 3''"
    using 3 by simp_all
  have s2a: "workload s2 ''Agent 1'' = [''T2'', ''T3'', ''T4'', ''T5''] @
        map a_ticket_id (filter (\<lambda>n. a_assigned_agent n = ''Agent 1'') new)"
    using 5 w by simp
  have s2b: "workload s2 ''Agent 2'' = workload ?s ''Agent 2''"
    "workload s2 ''Agent 3'' = workload ?s ''Agent 3''"
    using 6 by simp_all
  have ex: "\<exists>t s1 new s2.
      tickets ?s ''T1'' = Some t \<and>
      release_ticket ?s ''T1'' t = (Inr (), s1) \<and>
      workload s1 ''Agent 1'' = [''T2'', ''T3'', ''T4'', ''T5''] \<and>
      workload s1 ''Agent 2'' = workload ?s ''Agent 2'' \<and>
      workload s1 ''Agent 3'' = workload ?s ''Agent 3'' \<and>
      close_ticket ?s ''T1'' = (Inr (Closed ''T1'' (Some ''Agent 1'') new), s2) \<and>
      workload s2 ''Agent 1'' =
        [''T2'', ''T3'', ''T4'', ''T5''] @
        map a_ticket_id (filter (\<lambda>n. a_assigned_agent n = ''Agent 1'') new) \<and>
      workload s2 ''Agent 2'' = workload ?s ''Agent 2'' \<and>
      workload s2 ''Agent 3'' = workload ?s ''Agent 3''"
    using t(1) 1 s1a s1b 4 s2a s2b by blast
  show ?thesis using dx st ag w ex by blast
qed

text \<open>
  Without distinct ids the closure can change the list of another agent. After the run
  \<open>reused_id\<close> the ticket \<open>N1\<close> is pending on the list of Agent 3, the list of Agent 1
  is \<open>[X]\<close>, and the high queue still holds the first entry of \<open>X\<close>, whose stored ticket
  is now a software ticket. Closing \<open>N1\<close> empties the list of Agent 3, and the drain
  assigns the queued \<open>X\<close> to Agent 1, whose list becomes \<open>[X, X]\<close>.
\<close>

theorem close_changes_another_agent:
  "map_option status (tickets (run (init None) reused_id) ''N1'') = Some STATUS_PENDING \<and>
   map_option assigned_agent (tickets (run (init None) reused_id) ''N1'')
     = Some (Some ''Agent 3'') \<and>
   workload (run (init None) reused_id) ''Agent 3'' = [''N1''] \<and>
   workload (run (init None) reused_id) ''Agent 1'' = [''X''] \<and>
   queue (run (init None) reused_id) High = [''X''] \<and>
   fst (close_ticket (run (init None) reused_id) ''N1'') =
     Inr (Closed ''N1'' (Some ''Agent 3'')
            [\<lparr>a_ticket_id = ''X'', a_assigned_agent = ''Agent 1'',
              a_assigned_agent_id = ''692479b918668dee67209282''\<rparr>]) \<and>
   workload (snd (close_ticket (run (init None) reused_id) ''N1'')) ''Agent 3'' = [] \<and>
   workload (snd (close_ticket (run (init None) reused_id) ''N1'')) ''Agent 1''
     = [''X'', ''X''] \<and>
   workload (snd (close_ticket (run (init None) reused_id) ''N1'')) ''Agent 1''
     \<noteq> workload (run (init None) reused_id) ''Agent 1''"
  by code_simp

text \<open>
  C8. \<open>close_ticket\<close> on a ticket that is already closed returns the "already closed"
  result and the state it was given: no field of the classifier changes, and the queues
  are not drained.
\<close>

theorem close_ticket_already_closed:
  assumes "tickets s tid = Some t" and "status t = STATUS_CLOSED"
  shows "close_ticket s tid = (Inr (AlreadyClosed tid), s)"
  using assms by (simp add: close_ticket_def)

theorem close_ticket_already_closed_witness:
  "map_option status
     (tickets (run (init None) [CreateTicket ''T1'' ''low'' ''network'' 0, CloseTicket ''T1''])
        ''T1'') = Some STATUS_CLOSED \<and>
   close_ticket (run (init None) [CreateTicket ''T1'' ''low'' ''network'' 0, CloseTicket ''T1''])
     ''T1'' =
     (Inr (AlreadyClosed ''T1''),
      run (init None) [CreateTicket ''T1'' ''low'' ''network'' 0, CloseTicket ''T1''])"
proof -
  let ?s = "run (init None) [CreateTicket ''T1'' ''low'' ''network'' 0, CloseTicket ''T1'']"
  have h: "map_option status (tickets ?s ''T1'') = Some STATUS_CLOSED"
    by code_simp
  then obtain t where t: "tickets ?s ''T1'' = Some t" "status t = STATUS_CLOSED"
    by auto
  show ?thesis using h close_ticket_already_closed [OF t] by simp
qed

text \<open>
  C9. Two calls of \<open>create_ticket\<close> with the same arguments, from states with the same
  routing state (agents' lists, queues, and tickets up to their advisory fields), one
  with a model loaded and one without: the results agree on everything but the three
  advisory fields, and the resulting routing states are equal.
\<close>

theorem routing_ignores_classifier:
  assumes "routing_state s1 = routing_state s2"
    and "model_loaded s1" and "nn s1 = Some f" and "\<not> model_loaded s2"
  shows "map_sum (\<lambda>e. e) routing_outcome (fst (create_ticket s1 tid p t now)) =
           map_sum (\<lambda>e. e) routing_outcome (fst (create_ticket s2 tid p t now)) \<and>
         routing_state (snd (create_ticket s1 tid p t now)) =
           routing_state (snd (create_ticket s2 tid p t now))"
proof (cases "lower p \<in> set PRIORITY_LEVELS \<and> lower t \<in> set TICKET_TYPES")
  case False
  then show ?thesis using assms(1) by (auto simp: create_ticket_def Let_def)
next
  case True
  obtain pc tc where enc: "map_of PRIORITY_ENCODING (lower p) = Some pc"
      "map_of TYPE_ENCODING (lower t) = Some tc"
    using True
    by (auto simp: PRIORITY_LEVELS_def TICKET_TYPES_def PRIORITY_ENCODING_def TYPE_ENCODING_def)
  have low: "lower (lower p) = lower p" "lower (lower t) = lower t"
    using True by (simp_all add: lower_levels lower_types)
  let ?t1 = "new_ticket tid (lower p) (lower t) now (Some (f pc tc))"
  let ?t2 = "new_ticket tid (lower p) (lower t) now None"
  let ?u1 = "s1\<lparr>tickets := (tickets s1)(tid \<mapsto> ?t1)\<rparr>"
  let ?u2 = "s2\<lparr>tickets := (tickets s2)(tid \<mapsto> ?t2)\<rparr>"
  have st: "strip_advisory ?t1 = strip_advisory ?t2"
    by (simp add: strip_advisory_def new_ticket_def)
  have u: "routing_state ?u1 = routing_state ?u2"
    using assms(1) st by (rule routing_state_store)
  have at: "agent_tickets s1 = agent_tickets s2"
    using assms(1) by (rule routing_state_agent_tickets)
  have fnd: "find_available_agent ?u1 (lower p) (lower t) =
             find_available_agent s2 (lower p) (lower t)"
    "find_available_agent ?u2 (lower p) (lower t) =
             find_available_agent s2 (lower p) (lower t)"
    using at by (auto intro: find_available_agent_cong)
  have pr: "predict_agent s1 (lower p) (lower t) = Inr (f pc tc)"
    using assms(2,3) by (simp add: predict_agent_def low enc)
  show ?thesis
  proof (cases "if_truthy (find_available_agent s2 (lower p) (lower t))")
    case None
    let ?qn = "get_queue_for_priority (lower p)"
    have "routing_state (queue_update ?qn (\<lambda>q. q @ [tid]) ?u1) =
          routing_state (queue_update ?qn (\<lambda>q. q @ [tid]) ?u2)"
      using u by (rule routing_state_queue_update)
    then have "routing_state
        ((queue_update ?qn (\<lambda>q. q @ [tid]) ?u1)
           \<lparr>tickets := (tickets (queue_update ?qn (\<lambda>q. q @ [tid]) ?u1))
              (tid \<mapsto> ?t1\<lparr>status := STATUS_OPEN\<rparr>)\<rparr>) =
        routing_state
        ((queue_update ?qn (\<lambda>q. q @ [tid]) ?u2)
           \<lparr>tickets := (tickets (queue_update ?qn (\<lambda>q. q @ [tid]) ?u2))
              (tid \<mapsto> ?t2\<lparr>status := STATUS_OPEN\<rparr>)\<rparr>)"
      using st by (intro routing_state_store) simp_all
    then show ?thesis
      using True None assms(2,4) pr fnd
      by (simp add: create_ticket_def Let_def routing_outcome_def)
        (simp add: new_ticket_def)
  next
    case (Some a)
    have "fst (assign_ticket ?u1 tid ?t1 a) = fst (assign_ticket ?u2 tid ?t2 a) \<and>
         routing_state (snd (assign_ticket ?u1 tid ?t1 a)) =
           routing_state (snd (assign_ticket ?u2 tid ?t2 a))"
      using u st by (rule assign_ticket_routing)
    then show ?thesis
      using True Some assms(2,4) pr fnd
      by (cases "assign_ticket ?u1 tid ?t1 a"; cases "assign_ticket ?u2 tid ?t2 a")
        (auto simp: create_ticket_def Let_def routing_outcome_def new_ticket_def
          split: sum.splits)
  qed
qed

theorem routing_ignores_classifier_witness:
  "routing_state (init (Some fixed_network)) = routing_state (init None) \<and>
   model_loaded (init (Some fixed_network)) \<and>
   nn (init (Some fixed_network)) = Some fixed_network \<and>
   \<not> model_loaded (init None) \<and>
   map_sum (\<lambda>e. e) routing_outcome
     (fst (create_ticket (init (Some fixed_network)) ''T1'' ''high'' ''software'' 0)) =
   map_sum (\<lambda>e. e) routing_outcome
     (fst (create_ticket (init None) ''T1'' ''high'' ''software'' 0)) \<and>
   routing_state (snd (create_ticket (init (Some fixed_network)) ''T1'' ''high'' ''software'' 0)) =
   routing_state (snd (create_ticket (init None) ''T1'' ''high'' ''software'' 0)) \<and>
   map_sum (\<lambda>e. e) r_assigned_agent
     (fst (create_ticket (init None) ''T1'' ''high'' ''software'' 0)) = Inr (Some ''Agent 1'') \<and>
   map_sum (\<lambda>e. e) r_neural_network_prediction
     (fst (create_ticket (init (Some fixed_network)) ''T1'' ''high'' ''software'' 0)) =
     Inr (Some ''Agent 2'')"
proof -
  have 1: "routing_state (init (Some fixed_network)) = routing_state (init None)"
    by (simp add: routing_state_def init_def)
  have 2: "model_loaded (init (Some fixed_network))"
    and 3: "nn (init (Some fixed_network)) = Some fixed_network"
    and 4: "\<not> model_loaded (init None)"
    by (simp_all add: init_def)
  have 5: "map_sum (\<lambda>e. e) r_assigned_agent
     (fst (create_ticket (init None) ''T1'' ''high'' ''software'' 0)) = Inr (Some ''Agent 1'')"
    by code_simp
  have 6: "map_sum (\<lambda>e. e) r_neural_network_prediction
     (fst (create_ticket (init (Some fixed_network)) ''T1'' ''high'' ''software'' 0)) =
     Inr (Some ''Agent 2'')"
    by code_simp
  show ?thesis
    using routing_ignores_classifier [OF 1 2 3 4, of "''T1''" "''high''" "''software''" 0]
      1 2 3 4 5 6 by simp
qed

text \<open>
  C10. In every state reached from the initial one, each id held in a priority queue or
  in an agent's list is a key of the ticket store; so a drain of that state returns
  normally, and no closure (which drains after releasing) raises a \<open>KeyError\<close>.
\<close>

theorem queued_and_assigned_ids_are_stored:
  "(\<forall>tid \<in> set (slots (run (init m) xs)). tid \<in> dom (tickets (run (init m) xs))) \<and>
   (\<exists>new s'. process_queues (run (init m) xs) = (Inr new, s')) \<and>
   (\<forall>tid k. fst (close_ticket (run (init m) xs) tid) \<noteq> Inl (KeyError k))"
proof -
  let ?s = "run (init m) xs"
  have inv: "base_inv ?s" by (intro base_inv_run base_inv_init)
  have 1: "\<forall>tid \<in> set (slots ?s). tid \<in> dom (tickets ?s)"
    using inv by (auto simp: base_inv_def)
  have 2: "\<exists>new s'. process_queues ?s = (Inr new, s')"
    using process_queues_base_inv [OF inv] by blast
  have 3: "fst (close_ticket ?s tid) \<noteq> Inl (KeyError k)" for tid k
  proof (cases "tickets ?s tid")
    case None
    then show ?thesis by (simp add: close_ticket_def)
  next
    case (Some t)
    then show ?thesis
      using close_ticket_base_inv [OF inv Some]
      by (cases "status t = STATUS_CLOSED") (simp_all add: close_ticket_def)
  qed
  show ?thesis using 1 2 3 by blast
qed

theorem queued_and_assigned_ids_are_stored_witness:
  "''T6'' \<in> set (slots (run (init None) six_high_software)) \<and>
   ''T6'' \<in> dom (tickets (run (init None) six_high_software)) \<and>
   ''T1'' \<in> set (slots (run (init None) six_high_software)) \<and>
   ''T1'' \<in> dom (tickets (run (init None) six_high_software)) \<and>
   fst (process_queues (run (init None) six_high_software)) = Inr []"
proof -
  have h: "''T6'' \<in> set (slots (run (init None) six_high_software))"
    "''T1'' \<in> set (slots (run (init None) six_high_software))"
    by code_simp+
  have p: "fst (process_queues (run (init None) six_high_software)) = Inr []"
    by code_simp
  show ?thesis
    using h p queued_and_assigned_ids_are_stored [of None six_high_software] by blast
qed

end
